theory Spec2Isabelle
  imports Complex_Main "HOL-Library.Char_ord" "HOL-Library.List_Lexorder" "HOL-Library.Log_Nat"
    "HOL-Library.Multiset"
begin

section \<open>Python values, strings and errors\<close>

text \<open>
  The program is Python on top of pandas, in the behaviour of the pandas 1 and
  2 lines that the code relies on (a text can be stored into a column created
  as NaN, and \<^verbatim>\<open>astype(str)\<close> turns a missing value into the text
  \<^verbatim>\<open>nan\<close>). A string is Python's \<^verbatim>\<open>str\<close> in UTF-8: a list of bytes, a
  character outside ASCII being the bytes of its encoding. The whitespace table
  below has every character of \<^verbatim>\<open>str.isspace\<close>; the case table is the ASCII
  part of \<^verbatim>\<open>str.lower\<close> (no character outside ASCII is lowered to
  \<^verbatim>\<open>n\<close> or \<^verbatim>\<open>a\<close>, so a comparison of a lowered text with \<^verbatim>\<open>nan\<close> is exact).
  A float is modelled by the rational that it denotes. The overall score of
  the scoring service is computed in double precision: every operation rounds
  its exact result to the nearest double (\<open>to_double\<close>). The completeness and
  similarity scores of the duplicate studio are computed on the exact
  rationals. Exceptions are values of \<open>py_error\<close>; a computation that may raise
  returns \<open>py_error + 'a\<close>.
\<close>

datatype py_error =
    ZeroDivisionError
  | KeyError string
  | TypeError string
  | ValueError string
  | PyException string

fun err_str :: "py_error \<Rightarrow> string" where
  "err_str ZeroDivisionError = ''division by zero''"
| "err_str (KeyError s) = s"
| "err_str (TypeError s) = s"
| "err_str (ValueError s) = s"
| "err_str (PyException s) = s"

fun startswith :: "string \<Rightarrow> string \<Rightarrow> bool" where
  "startswith s [] = True"
| "startswith [] (p # ps) = False"
| "startswith (c # cs) (p # ps) = (c = p \<and> startswith cs ps)"

text \<open>
  The characters of \<^verbatim>\<open>str.isspace\<close>, each in UTF-8: U+0009 to U+000D, U+001C
  to U+0020, U+0085, U+00A0, U+1680, U+2000 to U+200A, U+2028, U+2029, U+202F,
  U+205F and U+3000.
\<close>

definition whitespace :: "string list" where
  "whitespace =
     [[CHR 0x09], [CHR 0x0A], [CHR 0x0B], [CHR 0x0C], [CHR 0x0D],
      [CHR 0x1C], [CHR 0x1D], [CHR 0x1E], [CHR 0x1F], [CHR 0x20],
      [CHR 0xC2, CHR 0x85], [CHR 0xC2, CHR 0xA0], [CHR 0xE1, CHR 0x9A, CHR 0x80],
      [CHR 0xE2, CHR 0x80, CHR 0x80], [CHR 0xE2, CHR 0x80, CHR 0x81], [CHR 0xE2, CHR 0x80, CHR 0x82],
      [CHR 0xE2, CHR 0x80, CHR 0x83], [CHR 0xE2, CHR 0x80, CHR 0x84], [CHR 0xE2, CHR 0x80, CHR 0x85],
      [CHR 0xE2, CHR 0x80, CHR 0x86], [CHR 0xE2, CHR 0x80, CHR 0x87], [CHR 0xE2, CHR 0x80, CHR 0x88],
      [CHR 0xE2, CHR 0x80, CHR 0x89], [CHR 0xE2, CHR 0x80, CHR 0x8A], [CHR 0xE2, CHR 0x80, CHR 0xA8],
      [CHR 0xE2, CHR 0x80, CHR 0xA9], [CHR 0xE2, CHR 0x80, CHR 0xAF], [CHR 0xE2, CHR 0x81, CHR 0x9F],
      [CHR 0xE3, CHR 0x80, CHR 0x80]]"

text \<open>
  The length of the first entry of a table that a string starts with, 0 when
  it starts with none.
\<close>

fun match_len :: "string list \<Rightarrow> string \<Rightarrow> nat" where
  "match_len [] s = 0"
| "match_len (w # ws) s = (if startswith s w then length w else match_len ws s)"

text \<open>Entries of a table are removed from the left end for as long as there is one.\<close>

function lstrip_by :: "string list \<Rightarrow> string \<Rightarrow> string" where
  "lstrip_by tab s = (if match_len tab s = 0 then s else lstrip_by tab (drop (match_len tab s) s))"
  by pat_completeness auto
termination
proof (relation "measure (\<lambda>(tab, s). length s)")
  show "wf (measure (\<lambda>(tab, s). length s))" by simp
next
  fix tab :: "string list" and s :: string
  assume a: "match_len tab s \<noteq> 0"
  have "match_len tab [] = 0"
  proof (induction tab)
    case Nil then show ?case by simp
  next
    case (Cons w ws) then show ?case by (cases w) simp_all
  qed
  with a have "s \<noteq> []" by auto
  with a show "((tab, drop (match_len tab s) s), (tab, s)) \<in> measure (\<lambda>(tab, s). length s)"
    by simp
qed

declare lstrip_by.simps [simp del]

text \<open>
  \<^verbatim>\<open>s.strip()\<close>: the whitespace characters are removed from the left end, and
  from the right end (on the reversed string, with the reversed encodings).
\<close>

definition py_strip :: "string \<Rightarrow> string" where
  "py_strip s = rev (lstrip_by (map rev whitespace) (rev (lstrip_by whitespace s)))"

definition py_lower_char :: "char \<Rightarrow> char" where
  "py_lower_char c =
     (let n = (of_char c :: nat)
      in if 65 \<le> n \<and> n \<le> 90 then char_of (n + 32) else c)"

definition py_lower :: "string \<Rightarrow> string" where
  "py_lower s = map py_lower_char s"

text \<open>\<^verbatim>\<open>kw in s\<close> on strings: \<open>kw\<close> occurs in \<open>s\<close> as a contiguous substring.\<close>

fun py_in_str :: "string \<Rightarrow> string \<Rightarrow> bool" where
  "py_in_str kw [] = (kw = [])"
| "py_in_str kw (c # cs) = (startswith (c # cs) kw \<or> py_in_str kw cs)"

fun py_join :: "string \<Rightarrow> string list \<Rightarrow> string" where
  "py_join sep [] = []"
| "py_join sep [x] = x"
| "py_join sep (x # y # ys) = x @ sep @ py_join sep (y # ys)"

definition digit_char :: "nat \<Rightarrow> char" where
  "digit_char d = char_of (48 + d)"

fun str_nat :: "nat \<Rightarrow> string" where
  "str_nat n = (if n < 10 then [digit_char n] else str_nat (n div 10) @ [digit_char (n mod 10)])"

declare str_nat.simps [simp del]

text \<open>The format specification \<^verbatim>\<open>{n:04d}\<close> for a non-negative \<open>n\<close>.\<close>

definition fmt_04d :: "nat \<Rightarrow> string" where
  "fmt_04d n = (let s = str_nat n in replicate (4 - length s) (CHR ''0'') @ s)"

text \<open>
  The nearest integer, a tie going to the even neighbour, and with it
  \<^verbatim>\<open>round(x, ndigits)\<close> on the exact value: the nearest multiple of
  \<open>10 ^ -ndigits\<close>.
\<close>

definition round_half_even :: "rat \<Rightarrow> int" where
  "round_half_even y =
     (let f = \<lfloor>y\<rfloor>; d = y - of_int f
      in if d < 1 / 2 then f
         else if 1 / 2 < d then f + 1
         else if even f then f else f + 1)"

definition py_round :: "rat \<Rightarrow> nat \<Rightarrow> rat" where
  "py_round x ndigits = of_int (round_half_even (x * 10 ^ ndigits)) / 10 ^ ndigits"

text \<open>
  Double precision. \<open>binade x\<close> is the exponent \<open>e\<close> of a positive \<open>x\<close>:
  \<open>2 ^ e \<le> x < 2 ^ (e + 1)\<close>. \<open>to_double x\<close> is the double nearest to \<open>x\<close>: the
  multiple of \<open>2 ^ (e - 52)\<close> nearest to it, a tie going to the even mantissa.
  The exponent is not bounded here (no overflow, no subnormal numbers): the
  numbers of the overall score are 0 or lie between \<open>2 ^ -63\<close> and 10000, the
  length of a table being below \<open>2 ^ 63\<close>.
\<close>

definition binade :: "rat \<Rightarrow> int" where
  "binade x =
     (if 1 \<le> x then int (floorlog 2 (nat \<lfloor>x\<rfloor>)) - 1
      else - int (floorlog 2 (nat \<lceil>1 / x\<rceil> - 1)))"

definition to_double :: "rat \<Rightarrow> rat" where
  "to_double x =
     (if x = 0 then 0
      else let ulp = 2 powi (binade \<bar>x\<bar> - 52)
           in of_int (round_half_even (x / ulp)) * ulp)"




text \<open>
  A cell of a data frame. The loaders read every file with \<^verbatim>\<open>dtype=str\<close>, so a
  cell of an object column is a string or missing (\<open>Null\<close>, pandas' NaN). A
  datetime-typed column holds timestamps (\<open>Ts\<close>, a number of time units) or
  \<open>NaT\<close>, its missing value.
\<close>

datatype cell = Null | Str string | Ts int | NaT

fun notna :: "cell \<Rightarrow> bool" where
  "notna Null = False"
| "notna NaT = False"
| "notna (Str s) = True"
| "notna (Ts t) = True"

datatype dtype = ObjectDtype | Datetime64

text \<open>
  A data frame with the default index: the label of a row is its position.
  Every row has one cell per column.
\<close>

record dataframe =
  df_columns :: "(string \<times> dtype) list"
  df_rows :: "cell list list"

definition col_names :: "dataframe \<Rightarrow> string list" where
  "col_names df = map fst (df_columns df)"

definition wf_df :: "dataframe \<Rightarrow> bool" where
  "wf_df df = (distinct (col_names df) \<and> list_all (\<lambda>r. length r = length (df_columns df)) (df_rows df))"

fun index_of :: "'a \<Rightarrow> 'a list \<Rightarrow> nat option" where
  "index_of x [] = None"
| "index_of x (y # ys) = (if x = y then Some 0 else map_option Suc (index_of x ys))"

text \<open>\<^verbatim>\<open>df[col]\<close> as the list of the column's cells, by the position of the column.\<close>

definition column_at :: "dataframe \<Rightarrow> nat \<Rightarrow> cell list" where
  "column_at df k = map (\<lambda>r. r ! k) (df_rows df)"

text \<open>The distinct elements of a list, in the order of their first occurrence.\<close>

fun unique_first :: "'a list \<Rightarrow> 'a list" where
  "unique_first [] = []"
| "unique_first (x # xs) = x # unique_first (filter (\<lambda>y. y \<noteq> x) xs)"

text \<open>
  The counting behind \<^verbatim>\<open>Series.value_counts()\<close>: the distinct values with their
  number of occurrences, the most frequent first. The sort is taken to be
  stable: values with the same count stay in the order of their first
  occurrence.
\<close>

definition counts_desc :: "'a list \<Rightarrow> ('a \<times> nat) list" where
  "counts_desc xs =
     sort_key (\<lambda>(v, c). - int c) (map (\<lambda>v. (v, count_list xs v)) (unique_first xs))"

text \<open>\<^verbatim>\<open>Series.value_counts()\<close> drops the missing values first.\<close>

definition value_counts :: "cell list \<Rightarrow> (cell \<times> nat) list" where
  "value_counts vs = counts_desc (filter notna vs)"

text \<open>One element of \<^verbatim>\<open>series == val\<close>: a missing value equals nothing.\<close>

definition cell_eq :: "cell \<Rightarrow> cell \<Rightarrow> bool" where
  "cell_eq a val = (notna a \<and> a = val)"


section \<open>reporting\_core: ScoringService\<close>




section \<open>data\_quality\_core: RuleExecutorEngine\<close>

text \<open>
  \<^verbatim>\<open>_is_null_or_empty(value)\<close>: the value is None or a float NaN, or its text
  is empty after \<^verbatim>\<open>strip()\<close>, or its text lowered is \<^verbatim>\<open>nan\<close>. The text of a
  timestamp is a date and the text of \<open>NaT\<close> is \<^verbatim>\<open>NaT\<close>: neither is blank or
  \<^verbatim>\<open>nan\<close>.
\<close>

fun is_null_or_empty :: "cell \<Rightarrow> bool" where
  "is_null_or_empty Null = True"
| "is_null_or_empty (Str s) = (py_strip s = [] \<or> py_lower s = ''nan'')"
| "is_null_or_empty (Ts t) = False"
| "is_null_or_empty NaT = False"

text \<open>The \<^verbatim>\<open>expression\<close> of a rule: absent, a string, or a number of a JSON rulebook.\<close>

datatype expr = ENone | EStr string | ENum int

fun truthy :: "expr \<Rightarrow> bool" where
  "truthy ENone = False"
| "truthy (EStr s) = (s \<noteq> [])"
| "truthy (ENum n) = (n \<noteq> 0)"

text \<open>A rule of the rulebook: a dictionary, each key present or not.\<close>

record rule =
  rule_type :: "string option"
  rule_column :: "string option"
  rule_columns :: "string list option"
  rule_expression :: expr
  rule_message :: "string option"
  rule_dimension :: "string option"

record rule_result =
  passed :: bool
  message :: string
  res_rule_type :: "string option"
  res_column :: "string option"
  res_columns :: "string list option"
  dimension :: string

text \<open>
  The body of the loop of \<^verbatim>\<open>_precompute_duplicates\<close> for one column, given as
  the list of its cells: the rows of each value that occurs more than once and
  is not null or empty.
\<close>

definition dup_indices_of :: "cell list \<Rightarrow> nat set" where
  "dup_indices_of vs =
     (let dup_vals = map fst (filter (\<lambda>(v, c). c > 1) (value_counts vs))
      in fold (\<lambda>val dup_indices.
                 if \<not> is_null_or_empty val
                 then dup_indices \<union> set (filter (\<lambda>i. cell_eq (vs ! i) val) [0..<length vs])
                 else dup_indices)
              dup_vals {})"

text \<open>\<^verbatim>\<open>_precompute_duplicates\<close>: the loop over the columns fills the cache.\<close>

definition precompute_duplicates :: "dataframe \<Rightarrow> (string \<rightharpoonup> nat set)" where
  "precompute_duplicates df =
     fold (\<lambda>(k, col) cache. cache(col \<mapsto> dup_indices_of (column_at df k)))
          (enumerate 0 (col_names df)) Map.empty"

text \<open>
  The engine after \<^verbatim>\<open>__init__\<close>. The table of combination duplicates is a
  field of its own, read by \<^verbatim>\<open>_execute_combination_uniqueness\<close>.
\<close>

record engine =
  e_df :: dataframe
  e_rulebook :: "rule list"
  duplicate_cache :: "string \<rightharpoonup> nat set"
  combination_duplicates :: "string \<rightharpoonup> nat list list"

definition init_engine :: "dataframe \<Rightarrow> rule list \<Rightarrow> (string \<rightharpoonup> nat list list) \<Rightarrow> engine" where
  "init_engine df rulebook combos =
     \<lparr> e_df = df, e_rulebook = rulebook,
       duplicate_cache = precompute_duplicates df,
       combination_duplicates = combos \<rparr>"

definition forbidden_tokens :: "string list" where
  "forbidden_tokens = [''import'', ''exec'', ''eval'', ''__'', ''open'', ''file'']"

text \<open>
  \<^verbatim>\<open>_evaluate_safe_expression\<close>. \<open>py_eval e v\<close> stands for
  \<^verbatim>\<open>bool(eval(e, safe_builtins, safe_vars))\<close> with \<open>value\<close> bound to \<open>v\<close>: it
  returns a truth value or raises. A token test on an expression that is not a
  string raises a TypeError inside the \<^verbatim>\<open>try\<close>.
\<close>

definition safe_expression_body ::
  "(string \<Rightarrow> cell \<Rightarrow> py_error + bool) \<Rightarrow> cell \<Rightarrow> expr \<Rightarrow> py_error + bool" where
  "safe_expression_body py_eval v expression =
     (case expression of
        EStr e \<Rightarrow>
          if list_ex (\<lambda>kw. py_in_str kw e) forbidden_tokens then Inr False
          else py_eval e v
      | _ \<Rightarrow> Inl (TypeError ''argument is not iterable''))"

definition evaluate_safe_expression ::
  "(string \<Rightarrow> cell \<Rightarrow> py_error + bool) \<Rightarrow> cell \<Rightarrow> expr \<Rightarrow> bool" where
  "evaluate_safe_expression py_eval v expression =
     (case safe_expression_body py_eval v expression of
        Inl e \<Rightarrow> False
      | Inr b \<Rightarrow> b)"

definition default_str :: "string option \<Rightarrow> string \<Rightarrow> string" where
  "default_str v d = (case v of None \<Rightarrow> d | Some s \<Rightarrow> s)"

definition execute_combination_uniqueness :: "engine \<Rightarrow> rule \<Rightarrow> nat \<Rightarrow> rule_result" where
  "execute_combination_uniqueness eng r row_idx =
     (let columns = (case rule_columns r of None \<Rightarrow> [] | Some cs \<Rightarrow> cs);
          msg = default_str (rule_message r) ''Duplicate combination found'';
          dim = default_str (rule_dimension r) ''Uniqueness''
      in if length columns < 2
         then \<lparr> passed = True, message = [], res_rule_type = Some ''uniqueness_combination'',
                res_column = None, res_columns = Some columns, dimension = dim \<rparr>
         else
           let combo_key = py_join '' + '' columns;
               dup_groups = (case combination_duplicates eng combo_key of None \<Rightarrow> [] | Some g \<Rightarrow> g);
               ok = list_all (\<lambda>grp. row_idx \<notin> set grp) dup_groups
           in \<lparr> passed = ok, message = (if \<not> ok then msg else []),
                res_rule_type = Some ''uniqueness_combination'',
                res_column = Some combo_key, res_columns = Some columns, dimension = dim \<rparr>)"

text \<open>
  The rule types whose check is a call into a library (\<^verbatim>\<open>re\<close>, \<^verbatim>\<open>float\<close>,
  \<^verbatim>\<open>strptime\<close>, string methods): \<open>lib_check t v e\<close> is the result of the branch
  of type \<open>t\<close> on the value \<open>v\<close> and the expression \<open>e\<close>, or the exception it
  raises.
\<close>

definition library_rule_types :: "string list" where
  "library_rule_types =
     [''regex'', ''allowed_values'', ''range'', ''length'', ''no_special_chars'',
      ''email_format'', ''numeric_only'', ''alpha_only'', ''date_format'',
      ''contains'', ''not_contains'']"

text \<open>The \<^verbatim>\<open>try\<close> block of \<^verbatim>\<open>_execute_single_rule\<close>: the value of \<open>passed\<close>, or the exception.\<close>

definition rule_body ::
  "(string \<Rightarrow> cell \<Rightarrow> py_error + bool) \<Rightarrow> (string \<Rightarrow> cell \<Rightarrow> expr \<Rightarrow> py_error + bool)
     \<Rightarrow> engine \<Rightarrow> string option \<Rightarrow> string \<Rightarrow> cell \<Rightarrow> expr \<Rightarrow> nat \<Rightarrow> py_error + bool" where
  "rule_body py_eval lib_check eng rtype column v expression row_idx =
     (if rtype = Some ''not_null'' then Inr (\<not> is_null_or_empty v)
      else if rtype = Some ''uniqueness''
        then Inr (row_idx \<notin> (case duplicate_cache eng column of None \<Rightarrow> {} | Some s \<Rightarrow> s))
      else if rtype \<in> Some ` set library_rule_types then lib_check (the rtype) v expression
      else if rtype = Some ''custom_expression''
        then (if truthy expression then Inr (evaluate_safe_expression py_eval v expression)
              else Inr True)
      else Inr True)"

text \<open>
  \<^verbatim>\<open>_execute_single_rule(row, rule, row_idx)\<close>, the row being row \<open>row_idx\<close> of
  the engine's frame as \<^verbatim>\<open>iterrows\<close> yields it.
\<close>

definition execute_single_rule ::
  "(string \<Rightarrow> cell \<Rightarrow> py_error + bool) \<Rightarrow> (string \<Rightarrow> cell \<Rightarrow> expr \<Rightarrow> py_error + bool)
     \<Rightarrow> engine \<Rightarrow> cell list \<Rightarrow> rule \<Rightarrow> nat \<Rightarrow> rule_result" where
  "execute_single_rule py_eval lib_check eng row r row_idx =
     (let rtype = rule_type r;
          msg = default_str (rule_message r) ''Validation failed'';
          dim = default_str (rule_dimension r) ''General''
      in if rtype = Some ''uniqueness_combination''
         then execute_combination_uniqueness eng r row_idx
         else
           case (case rule_column r of None \<Rightarrow> None
                 | Some c \<Rightarrow> map_option (\<lambda>k. (c, row ! k)) (index_of c (col_names (e_df eng)))) of
             None \<Rightarrow> \<lparr> passed = True, message = [], res_rule_type = rtype,
                        res_column = rule_column r, res_columns = None, dimension = dim \<rparr>
           | Some (column, v) \<Rightarrow>
               (case rule_body py_eval lib_check eng rtype column v (rule_expression r) row_idx of
                  Inl e \<Rightarrow> \<lparr> passed = False, message = msg @ '' (Error: '' @ err_str e @ '')'',
                              res_rule_type = rtype, res_column = rule_column r,
                              res_columns = None, dimension = dim \<rparr>
                | Inr ok \<Rightarrow> \<lparr> passed = ok, message = (if \<not> ok then msg else []),
                               res_rule_type = rtype, res_column = rule_column r,
                               res_columns = None, dimension = dim \<rparr>))"


section \<open>case\_management: case CRUD\<close>

record history_entry =
  h_ts :: string
  h_action :: string
  h_by :: string

record case_rec =
  c_case_id :: string
  c_title :: string
  c_type :: string
  c_priority :: string
  c_status :: string
  c_description :: string
  c_affected_records :: int
  c_affected_columns :: string
  c_source :: string
  c_created_at :: string
  c_updated_at :: string
  c_resolved_at :: string
  c_assigned_to :: string
  c_history :: "history_entry list"
  c_extra :: "(string \<times> string) list"

text \<open>The part of \<^verbatim>\<open>st.session_state\<close> that the case helpers read and write.\<close>

record session_state =
  cases :: "case_rec list"
  case_counter :: nat

definition next_case_id :: "session_state \<Rightarrow> string \<times> session_state" where
  "next_case_id st =
     (let st' = st\<lparr>case_counter := case_counter st + 1\<rparr>
      in (''CASE-'' @ fmt_04d (case_counter st'), st'))"

text \<open>
  \<open>now\<close> is \<^verbatim>\<open>datetime.datetime.now().strftime("%Y-%m-%d %H:%M")\<close>; \<open>extra\<close> is
  \<open>None\<close> when the caller passes none (\<^verbatim>\<open>extra or {}\<close>).
\<close>

definition create_case ::
  "session_state \<Rightarrow> string \<Rightarrow> string \<Rightarrow> string \<Rightarrow> string \<Rightarrow> string \<Rightarrow> int \<Rightarrow> string \<Rightarrow> string
     \<Rightarrow> (string \<times> string) list option \<Rightarrow> case_rec \<times> session_state" where
  "create_case st now title case_type priority description affected_records
       affected_columns source extra =
     (let (cid, st') = next_case_id st;
          c = \<lparr> c_case_id = cid,
                c_title = title,
                c_type = case_type,
                c_priority = priority,
                c_status = ''Open'',
                c_description = description,
                c_affected_records = affected_records,
                c_affected_columns = affected_columns,
                c_source = source,
                c_created_at = now,
                c_updated_at = now,
                c_resolved_at = [],
                c_assigned_to = [],
                c_history = [\<lparr> h_ts = now, h_action = ''Case created'', h_by = ''System'' \<rparr>],
                c_extra = (case extra of None \<Rightarrow> [] | Some e \<Rightarrow> e) \<rparr>
      in (c, st'\<lparr>cases := cases st' @ [c]\<rparr>))"

text \<open>The arrow U+2192 of the history text, in UTF-8.\<close>

definition arrow :: string where
  "arrow = [char_of (226 :: nat), char_of (134 :: nat), char_of (146 :: nat)]"

definition status_change_action :: "string \<Rightarrow> string \<Rightarrow> string \<Rightarrow> string" where
  "status_change_action old new_status note =
     ''Status changed: '' @ old @ '' '' @ arrow @ '' '' @ new_status
       @ (if note \<noteq> [] then '' ('' @ note @ '')'' else [])"

text \<open>The body of the loop of \<^verbatim>\<open>update_case_status\<close> for the case that matches.\<close>

definition apply_status :: "case_rec \<Rightarrow> string \<Rightarrow> string \<Rightarrow> string \<Rightarrow> string \<Rightarrow> case_rec" where
  "apply_status c new_status note by now =
     (let old = c_status c;
          c1 = c\<lparr>c_status := new_status\<rparr>;
          c2 = c1\<lparr>c_updated_at := now\<rparr>;
          c3 = (if new_status \<in> set [''Resolved'', ''Closed'']
                then c2\<lparr>c_resolved_at := now\<rparr> else c2)
      in c3\<lparr>c_history := c_history c3 @
              [\<lparr> h_ts = now, h_action = status_change_action old new_status note, h_by = by \<rparr>]\<rparr>)"

text \<open>The \<^verbatim>\<open>for\<close> loop over the cases: the first case with the id is updated, then \<^verbatim>\<open>break\<close>.\<close>

fun update_cases :: "case_rec list \<Rightarrow> string \<Rightarrow> string \<Rightarrow> string \<Rightarrow> string \<Rightarrow> string \<Rightarrow> case_rec list" where
  "update_cases [] case_id new_status note by now = []"
| "update_cases (c # cs) case_id new_status note by now =
     (if c_case_id c = case_id then apply_status c new_status note by now # cs
      else c # update_cases cs case_id new_status note by now)"

definition update_case_status ::
  "session_state \<Rightarrow> string \<Rightarrow> string \<Rightarrow> string \<Rightarrow> string \<Rightarrow> string \<Rightarrow> session_state" where
  "update_case_status st now case_id new_status note by =
     st\<lparr>cases := update_cases (cases st) case_id new_status note by now\<rparr>"


section \<open>case\_management: duplicate detection\<close>

text \<open>
  A row of the annotated frame that \<^verbatim>\<open>detect_duplicates\<close> returns: its index
  label, the cells of the input columns, and the derived columns. A missing
  \<^verbatim>\<open>_dup_group_id\<close> or \<^verbatim>\<open>_recency_rank\<close> (NaN) is \<open>None\<close>.
\<close>

record dup_row =
  r_index :: nat
  r_values :: "cell list"
  dup_group_id :: "string option"
  is_duplicate :: bool
  dup_count :: nat
  match_type :: string
  similarity_score :: rat
  completeness :: rat
  recency_rank :: "int option"

record dup_frame =
  dup_columns :: "(string \<times> dtype) list"
  dup_rows :: "dup_row list"

definition internal_columns :: "string list" where
  "internal_columns =
     [''_dup_group_id'', ''_is_duplicate'', ''_dup_count'', ''_match_type'',
      ''_similarity_score'', ''_completeness'', ''_recency_rank'']"

text \<open>The positions of the columns whose name does not start with an underscore.\<close>

definition non_internal :: "(string \<times> dtype) list \<Rightarrow> nat list" where
  "non_internal cols = filter (\<lambda>k. \<not> startswith (fst (cols ! k)) ''_'') [0..<length cols]"

definition notna_count :: "(string \<times> dtype) list \<Rightarrow> cell list \<Rightarrow> nat" where
  "notna_count cols r = length (filter (\<lambda>k. notna (r ! k)) (non_internal cols))"

definition completeness_of :: "(string \<times> dtype) list \<Rightarrow> cell list \<Rightarrow> rat" where
  "completeness_of cols r =
     py_round (of_nat (notna_count cols r) / of_nat (max (length (non_internal cols)) 1) * 100) 2"

definition init_rows :: "dataframe \<Rightarrow> dup_row list" where
  "init_rows df =
     map (\<lambda>(i, r). \<lparr> r_index = i, r_values = r, dup_group_id = None, is_duplicate = False,
                      dup_count = 0, match_type = [], similarity_score = 0,
                      completeness = completeness_of (df_columns df) r,
                      recency_rank = None \<rparr>)
         (enumerate 0 (df_rows df))"

text \<open>
  The element-wise steps of
  \<^verbatim>\<open>match_df[col].astype(str).str.strip().str.lower().fillna("")\<close>.
  \<^verbatim>\<open>astype(str)\<close> turns every cell into its text, a missing one into the text
  \<^verbatim>\<open>nan\<close>; \<open>ts_str\<close> is the text of a timestamp. The \<^verbatim>\<open>.str\<close> methods map a
  cell that is not a string to a missing one, and \<^verbatim>\<open>fillna\<close> replaces the
  cells that are missing when it runs.
\<close>

fun astype_str :: "(int \<Rightarrow> string) \<Rightarrow> cell \<Rightarrow> cell" where
  "astype_str ts_str Null = Str ''nan''"
| "astype_str ts_str NaT = Str ''NaT''"
| "astype_str ts_str (Str s) = Str s"
| "astype_str ts_str (Ts t) = Str (ts_str t)"

fun str_strip :: "cell \<Rightarrow> cell" where
  "str_strip (Str s) = Str (py_strip s)"
| "str_strip _ = Null"

fun str_lower :: "cell \<Rightarrow> cell" where
  "str_lower (Str s) = Str (py_lower s)"
| "str_lower _ = Null"

fun fillna :: "string \<Rightarrow> cell \<Rightarrow> cell" where
  "fillna v Null = Str v"
| "fillna v NaT = Str v"
| "fillna v c = c"

definition normalize_cell :: "(int \<Rightarrow> string) \<Rightarrow> cell \<Rightarrow> cell" where
  "normalize_cell ts_str c = fillna [] (str_lower (str_strip (astype_str ts_str c)))"

text \<open>The text of a cell in \<^verbatim>\<open>r.values.astype(str)\<close>.\<close>

fun np_str :: "(int \<Rightarrow> string) \<Rightarrow> cell \<Rightarrow> string" where
  "np_str ts_str (Str s) = s"
| "np_str ts_str Null = ''nan''"
| "np_str ts_str NaT = ''NaT''"
| "np_str ts_str (Ts t) = ts_str t"

text \<open>The match key of a row; \<open>ks\<close> are the positions of the match columns.\<close>

definition match_key :: "(int \<Rightarrow> string) \<Rightarrow> nat list \<Rightarrow> cell list \<Rightarrow> string" where
  "match_key ts_str ks r = py_join ''|'' (map (\<lambda>k. np_str ts_str (normalize_cell ts_str (r ! k))) ks)"

text \<open>
  \<^verbatim>\<open>key_counts[key_counts > 1].index\<close>: the key column has no missing value, so
  \<^verbatim>\<open>value_counts\<close> counts every row.
\<close>

definition dup_keys_of :: "string list \<Rightarrow> string list" where
  "dup_keys_of keys = map fst (filter (\<lambda>(v, c). c > 1) (counts_desc keys))"

definition mark_exact :: "string \<Rightarrow> nat \<Rightarrow> dup_row \<Rightarrow> dup_row" where
  "mark_exact gid n r =
     r\<lparr>dup_group_id := Some gid, is_duplicate := True, dup_count := n,
       match_type := ''Exact'', similarity_score := 1\<rparr>"

text \<open>One round of the loop \<^verbatim>\<open>for key in dup_keys\<close>; the state is the counter and the result frame.\<close>

definition exact_step :: "string list \<Rightarrow> string \<Rightarrow> nat \<times> dup_row list \<Rightarrow> nat \<times> dup_row list" where
  "exact_step keys key st =
     (let (group_id, result) = st;
          idxs = filter (\<lambda>i. keys ! i = key) [0..<length keys];
          group_id' = group_id + 1;
          gid = ''DG-'' @ fmt_04d group_id'
      in (group_id', fold (\<lambda>idx res. res[idx := mark_exact gid (length idxs) (res ! idx)]) idxs result))"

definition exact_phase :: "string list \<Rightarrow> dup_row list \<Rightarrow> nat \<times> dup_row list" where
  "exact_phase keys result = fold (exact_step keys) (dup_keys_of keys) (0, result)"

text \<open>
  The fuzzy phase. \<open>ratio a b\<close> is \<^verbatim>\<open>SequenceMatcher(None, a, b).ratio()\<close>. The
  inner loop scans every unassigned row \<open>(j, idx_b)\<close> for the seed \<open>(i, idx_a)\<close>.
\<close>

definition scan_step ::
  "(string \<Rightarrow> string \<Rightarrow> rat) \<Rightarrow> string list \<Rightarrow> rat \<Rightarrow> nat \<Rightarrow> nat \<Rightarrow> nat set
     \<Rightarrow> nat \<times> nat \<Rightarrow> nat list \<times> dup_row list \<Rightarrow> nat list \<times> dup_row list" where
  "scan_step ratio keys threshold i idx_a visited jb st =
     (let (j, idx_b) = jb; (grp, result) = st
      in if idx_b = idx_a \<or> idx_b \<in> visited then (grp, result)
         else
           let sim = ratio (keys ! i) (keys ! j)
           in if sim \<ge> threshold
              then (grp @ [idx_b],
                    result[idx_b := (result ! idx_b)\<lparr>similarity_score := py_round sim 3\<rparr>])
              else (grp, result))"

text \<open>One round of the outer loop \<^verbatim>\<open>for i, idx_a in unassigned\<close>.\<close>

definition seed_step ::
  "(string \<Rightarrow> string \<Rightarrow> rat) \<Rightarrow> string list \<Rightarrow> rat \<Rightarrow> (nat \<times> nat) list \<Rightarrow> nat \<times> nat
     \<Rightarrow> nat set \<times> nat list list \<times> dup_row list \<Rightarrow> nat set \<times> nat list list \<times> dup_row list" where
  "seed_step ratio keys threshold unassigned ia st =
     (let (i, idx_a) = ia; (visited, fuzzy_groups, result) = st
      in if idx_a \<in> visited then (visited, fuzzy_groups, result)
         else
           let (grp, result') =
                 fold (scan_step ratio keys threshold i idx_a visited) unassigned ([idx_a], result)
           in if length grp > 1
              then (visited \<union> set grp, fuzzy_groups @ [grp], result')
              else (visited, fuzzy_groups, result'))"

definition mark_fuzzy :: "string \<Rightarrow> nat \<Rightarrow> dup_row \<Rightarrow> dup_row" where
  "mark_fuzzy gid n r =
     (let r' = r\<lparr>dup_group_id := Some gid, is_duplicate := True, dup_count := n,
                 match_type := ''Fuzzy''\<rparr>
      in if similarity_score r' = 0 then r'\<lparr>similarity_score := 1\<rparr> else r')"

text \<open>One round of the loop \<^verbatim>\<open>for grp in fuzzy_groups\<close>.\<close>

definition finalize_step :: "nat list \<Rightarrow> nat \<times> dup_row list \<Rightarrow> nat \<times> dup_row list" where
  "finalize_step grp st =
     (let (group_id, result) = st;
          group_id' = group_id + 1;
          gid = ''DG-'' @ fmt_04d group_id' @ ''-F''
      in (group_id', fold (\<lambda>idx res. res[idx := mark_fuzzy gid (length grp) (res ! idx)]) grp result))"

text \<open>
  The whole fuzzy block: the groups it finds (stored in the session state
  under \<^verbatim>\<open>studio_fuzzy_groups\<close>), the counter and the result frame.
\<close>

definition fuzzy_phase ::
  "(string \<Rightarrow> string \<Rightarrow> rat) \<Rightarrow> string list \<Rightarrow> rat \<Rightarrow> nat \<times> dup_row list
     \<Rightarrow> nat list list \<times> nat \<times> dup_row list" where
  "fuzzy_phase ratio keys threshold st =
     (let (group_id, result) = st;
          indices = [0..<length keys];
          unassigned = filter (\<lambda>(i, idx). \<not> is_duplicate (result ! idx)) (enumerate 0 indices);
          (visited, fuzzy_groups, result') =
             fold (seed_step ratio keys threshold unassigned) unassigned ({}, [], result);
          (group_id', result'') = fold finalize_step fuzzy_groups (group_id, result')
      in (fuzzy_groups, group_id', result''))"

text \<open>The positions of the datetime-typed columns (\<^verbatim>\<open>select_dtypes\<close>).\<close>

definition date_cols :: "(string \<times> dtype) list \<Rightarrow> nat list" where
  "date_cols cols = filter (\<lambda>k. snd (cols ! k) = Datetime64) [0..<length cols]"

text \<open>
  \<^verbatim>\<open>groupby("_dup_group_id")[date].rank(method="first", ascending=False)\<close> at
  position \<open>p\<close>: a row without a group id or without a date has no rank; else
  one plus the number of rows of the group with a later date, plus the number
  of earlier rows of the group with the same date.
\<close>

definition date_of :: "nat \<Rightarrow> dup_row \<Rightarrow> int option" where
  "date_of k r = (case r_values r ! k of Ts t \<Rightarrow> Some t | _ \<Rightarrow> None)"

definition group_rank :: "nat \<Rightarrow> dup_row list \<Rightarrow> nat \<Rightarrow> int option" where
  "group_rank k result p =
     (case (dup_group_id (result ! p), date_of k (result ! p)) of
        (Some g, Some t) \<Rightarrow>
          Some (1
            + int (length (filter (\<lambda>q. dup_group_id (result ! q) = Some g
                                       \<and> (case date_of k (result ! q) of Some u \<Rightarrow> t < u | None \<Rightarrow> False))
                                  [0..<length result]))
            + int (length (filter (\<lambda>q. dup_group_id (result ! q) = Some g
                                       \<and> date_of k (result ! q) = Some t)
                                  [0..<p])))
      | _ \<Rightarrow> None)"

text \<open>
  \<^verbatim>\<open>groupby("_dup_group_id").cumcount(ascending=False)\<close> at position \<open>p\<close>: the
  number of later rows of the same group; a row whose group id is missing is
  in no group and gets NaN.
\<close>

definition cumcount_desc :: "dup_row list \<Rightarrow> nat \<Rightarrow> int option" where
  "cumcount_desc result p =
     (case dup_group_id (result ! p) of
        None \<Rightarrow> None
      | Some g \<Rightarrow>
          Some (int (length (filter (\<lambda>q. dup_group_id (result ! q) = Some g)
                                    [Suc p..<length result]))))"

definition fillna_int :: "int \<Rightarrow> int option \<Rightarrow> int option" where
  "fillna_int d v = (case v of None \<Rightarrow> Some d | Some x \<Rightarrow> Some x)"

definition recency_rank_of :: "(string \<times> dtype) list \<Rightarrow> dup_row list \<Rightarrow> nat \<Rightarrow> int option" where
  "recency_rank_of cols result p =
     (case date_cols cols of
        k # _ \<Rightarrow> fillna_int 0 (group_rank k result p)
      | [] \<Rightarrow> map_option (\<lambda>c. c + 1) (cumcount_desc result p))"

text \<open>
  \<^verbatim>\<open>detect_duplicates(df, match_columns, fuzzy, threshold)\<close>. It returns the
  annotated frame and what it stores under \<^verbatim>\<open>studio_fuzzy_groups\<close> (\<open>None\<close>
  when the fuzzy block does not run). Selecting a column that the frame does
  not have raises a KeyError, and a column selected twice cannot be
  normalised (\<^verbatim>\<open>match_df[col]\<close> is then a frame, which has no \<^verbatim>\<open>.str\<close>). With
  no match column every row gets the empty key.
\<close>

definition detect_duplicates ::
  "(int \<Rightarrow> string) \<Rightarrow> (string \<Rightarrow> string \<Rightarrow> rat) \<Rightarrow> dataframe \<Rightarrow> string list \<Rightarrow> bool \<Rightarrow> rat
     \<Rightarrow> py_error + (dup_frame \<times> nat list list option)" where
  "detect_duplicates ts_str ratio df match_columns fuzzy threshold =
     (case those (map (\<lambda>c. index_of c (col_names df)) match_columns) of
        None \<Rightarrow> Inl (KeyError ''match column not in index'')
      | Some ks \<Rightarrow>
          if \<not> distinct match_columns then Inl (PyException ''AttributeError'')
          else
            let result0 = init_rows df;
                keys = map (match_key ts_str ks) (df_rows df);
                (group_id, result1) = exact_phase keys result0;
                (groups, result2) =
                   (if fuzzy \<and> length match_columns = 1
                    then let (fg, group_id', res) = fuzzy_phase ratio keys threshold (group_id, result1)
                         in (Some fg, res)
                    else (None, result1));
                result3 = map (\<lambda>p. (result2 ! p)\<lparr>recency_rank := recency_rank_of (df_columns df) result2 p\<rparr>)
                              [0..<length result2]
            in Inr (\<lparr> dup_columns = df_columns df, dup_rows = result3 \<rparr>, groups))"


section \<open>case\_management: golden records\<close>

text \<open>
  The first of the best entries of a list of labelled values: \<open>better a b\<close>
  says that \<open>a\<close> beats \<open>b\<close>; a later entry replaces an earlier one only when it
  beats it.
\<close>

fun arg_best :: "('v \<Rightarrow> 'v \<Rightarrow> bool) \<Rightarrow> (nat \<times> 'v) list \<Rightarrow> (nat \<times> 'v) option" where
  "arg_best better [] = None"
| "arg_best better (x # xs) =
     (case arg_best better xs of
        None \<Rightarrow> Some x
      | Some y \<Rightarrow> if better (snd y) (snd x) then Some y else Some x)"

text \<open>
  \<^verbatim>\<open>int(series.idxmax())\<close> and \<^verbatim>\<open>int(series.idxmin())\<close>: missing values are
  skipped; when every value is missing there is no label to convert and the
  call raises.
\<close>

definition present :: "(nat \<times> 'v option) list \<Rightarrow> (nat \<times> 'v) list" where
  "present xs = concat (map (\<lambda>(i, v). case v of None \<Rightarrow> [] | Some x \<Rightarrow> [(i, x)]) xs)"

definition int_idx :: "(nat \<times> 'v) option \<Rightarrow> py_error + int" where
  "int_idx r = (case r of None \<Rightarrow> Inl (ValueError ''cannot convert float NaN to integer'')
                | Some (i, v) \<Rightarrow> Inr (int i))"

definition idxmax :: "(nat \<times> rat option) list \<Rightarrow> py_error + int" where
  "idxmax xs = int_idx (arg_best (\<lambda>a b. a > b) (present xs))"

definition idxmin :: "(nat \<times> rat option) list \<Rightarrow> py_error + int" where
  "idxmin xs = int_idx (arg_best (\<lambda>a b. a < b) (present xs))"

text \<open>
  \<^verbatim>\<open>int(series.idxmin())\<close> on a column of cells: the label of the first of the
  smallest values that are present. The model is lenient where pandas
  versions differ: texts compare as texts and timestamps as numbers (pandas 2
  refuses \<^verbatim>\<open>idxmin\<close> on an object column altogether, with a TypeError). A
  column that mixes texts and timestamps cannot be compared. When no value is
  present the call raises under every version: \<^verbatim>\<open>idxmin\<close> itself, or \<^verbatim>\<open>int\<close> on
  the NaN it returns.
\<close>

fun cell_less :: "cell \<Rightarrow> cell \<Rightarrow> bool" where
  "cell_less (Str a) (Str b) = (a < b)"
| "cell_less (Ts a) (Ts b) = (a < b)"
| "cell_less _ _ = False"

fun is_str :: "cell \<Rightarrow> bool" where
  "is_str (Str s) = True"
| "is_str _ = False"

fun is_ts :: "cell \<Rightarrow> bool" where
  "is_ts (Ts t) = True"
| "is_ts _ = False"

definition idxmin_cells :: "(nat \<times> cell) list \<Rightarrow> py_error + int" where
  "idxmin_cells xs =
     (if list_ex (\<lambda>(i, c). is_str c) xs \<and> list_ex (\<lambda>(i, c). is_ts c) xs
      then Inl (TypeError ''not supported between instances'')
      else case arg_best cell_less (filter (\<lambda>(i, c). notna c) xs) of
             None \<Rightarrow> Inl (PyException ''idxmin of a column without values'')
           | Some (i, v) \<Rightarrow> Inr (int i))"

definition source_keywords :: "string list" where
  "source_keywords = [''source'', ''system'', ''origin'', ''priority'']"

text \<open>
  The columns whose lowercased name contains a keyword. None of the derived
  columns does, so only the input columns are searched.
\<close>

definition src_cols :: "(string \<times> dtype) list \<Rightarrow> nat list" where
  "src_cols cols =
     filter (\<lambda>k. list_ex (\<lambda>kw. py_in_str kw (py_lower (fst (cols ! k)))) source_keywords)
            [0..<length cols]"

definition identify_golden_record ::
  "(string \<times> dtype) list \<Rightarrow> dup_row list \<Rightarrow> string \<Rightarrow> py_error + int" where
  "identify_golden_record cols group_df strategy =
     (if group_df = [] then Inr (- 1)
      else if strategy = ''Most Complete''
        then idxmax (map (\<lambda>r. (r_index r, Some (completeness r))) group_df)
      else if strategy = ''Most Recent''
        then idxmin (map (\<lambda>r. (r_index r, map_option of_int (recency_rank r))) group_df)
      else if strategy = ''Most Frequent''
        then idxmax (map (\<lambda>r. (r_index r, Some (of_nat (notna_count cols (r_values r))))) group_df)
      else if strategy = ''Source Priority''
        then (case src_cols cols of
                k # _ \<Rightarrow> idxmin_cells (map (\<lambda>r. (r_index r, r_values r ! k)) group_df)
              | [] \<Rightarrow> idxmax (map (\<lambda>r. (r_index r, Some (completeness r))) group_df))
      else Inr (int (r_index (hd group_df))))"

text \<open>
  \<^verbatim>\<open>dup_only.groupby("_dup_group_id")\<close>: the groups in the order of their
  sorted ids, each with its rows in frame order; rows without a group id are
  in no group.
\<close>

definition group_ids :: "dup_row list \<Rightarrow> string list" where
  "group_ids rows = sort (remdups (concat (map (\<lambda>r. case dup_group_id r of None \<Rightarrow> [] | Some g \<Rightarrow> [g]) rows)))"

definition groupby_gid :: "dup_row list \<Rightarrow> (string \<times> dup_row list) list" where
  "groupby_gid rows = map (\<lambda>g. (g, filter (\<lambda>r. dup_group_id r = Some g) rows)) (group_ids rows)"

text \<open>The loop over the groups; an exception of \<^verbatim>\<open>identify_golden_record\<close> ends it.\<close>

fun golden_loop ::
  "(string \<times> dtype) list \<Rightarrow> string \<Rightarrow> (string \<times> dup_row list) list
     \<Rightarrow> dup_row list list \<times> dup_row list list \<Rightarrow> py_error + (dup_row list list \<times> dup_row list list)" where
  "golden_loop cols strategy [] acc = Inr acc"
| "golden_loop cols strategy ((gid, grp) # rest) (golden_rows, discard_rows) =
     (case identify_golden_record cols grp strategy of
        Inl e \<Rightarrow> Inl e
      | Inr golden_idx \<Rightarrow>
          if golden_idx = - 1 then golden_loop cols strategy rest (golden_rows, discard_rows)
          else golden_loop cols strategy rest
                 (golden_rows @ [filter (\<lambda>r. int (r_index r) = golden_idx) grp],
                  discard_rows @ [filter (\<lambda>r. int (r_index r) \<noteq> golden_idx) grp]))"

definition build_golden_records_df :: "dup_frame \<Rightarrow> string \<Rightarrow> py_error + (dup_frame \<times> dup_frame)" where
  "build_golden_records_df dup_df strategy =
     (let non_dup = filter (\<lambda>r. \<not> is_duplicate r) (dup_rows dup_df);
          dup_only = filter is_duplicate (dup_rows dup_df)
      in case golden_loop (dup_columns dup_df) strategy (groupby_gid dup_only) ([], []) of
           Inl e \<Rightarrow> Inl e
         | Inr (golden_rows, discard_rows) \<Rightarrow>
             Inr (if golden_rows \<noteq> []
                  then \<lparr> dup_columns = dup_columns dup_df, dup_rows = non_dup @ concat golden_rows \<rparr>
                  else \<lparr> dup_columns = dup_columns dup_df, dup_rows = non_dup \<rparr>,
                  if discard_rows \<noteq> []
                  then \<lparr> dup_columns = dup_columns dup_df, dup_rows = concat discard_rows \<rparr>
                  else \<lparr> dup_columns = [], dup_rows = [] \<rparr>))"

section \<open>Notions used in the statements\<close>

subsection \<open>Scores and rules\<close>



text \<open>
  A text that consists of whitespace characters only (the empty text
  included), and the spellings of \<^verbatim>\<open>nan\<close> in upper and lower case.
\<close>

definition only_whitespace :: "string \<Rightarrow> bool" where
  "only_whitespace s = (\<exists>ws. set ws \<subseteq> set whitespace \<and> s = concat ws)"

definition nan_spellings :: "string list" where
  "nan_spellings = [''nan'', ''naN'', ''nAn'', ''nAN'', ''Nan'', ''NaN'', ''NAn'', ''NAN'']"

text \<open>A value that is null, blank, or the text \<^verbatim>\<open>nan\<close>.\<close>

fun null_blank_or_nan :: "cell \<Rightarrow> bool" where
  "null_blank_or_nan Null = True"
| "null_blank_or_nan NaT = True"
| "null_blank_or_nan (Ts t) = False"
| "null_blank_or_nan (Str s) = (only_whitespace s \<or> s \<in> set nan_spellings)"

text \<open>
  A table of encodings in which no entry is empty and no entry is the start of
  another one.
\<close>

definition prefix_free :: "string list \<Rightarrow> bool" where
  "prefix_free tab =
     list_all (\<lambda>w. w \<noteq> [] \<and> list_all (\<lambda>w'. startswith w w' \<longrightarrow> w = w') tab) tab"

text \<open>An expression that contains one of the forbidden tokens.\<close>

definition has_forbidden_token :: "string \<Rightarrow> bool" where
  "has_forbidden_token e = (\<exists>kw \<in> set forbidden_tokens. \<exists>pre post. e = pre @ kw @ post)"

subsection \<open>Duplicate detection\<close>

text \<open>The match keys of the rows of a frame, and the rows whose key no other row has.\<close>

definition match_keys :: "(int \<Rightarrow> string) \<Rightarrow> dataframe \<Rightarrow> nat list \<Rightarrow> string list" where
  "match_keys ts_str df ks = map (match_key ts_str ks) (df_rows df)"


text \<open>The rows that the exact phase has not marked, among the first \<open>n\<close>.\<close>

definition unassigned_rows :: "dup_row list \<Rightarrow> nat \<Rightarrow> nat list" where
  "unassigned_rows result n = filter (\<lambda>j. \<not> is_duplicate (result ! j)) [0..<n]"

text \<open>
  The rows that a seed \<open>a\<close> admits among the candidates: those other than the
  seed that are in no group yet and whose key has a similarity of at least the
  threshold to the key of the seed. The score that the scan writes for an
  admitted row, the rows of a list of groups, and the id of a fuzzy group.
\<close>

definition admitted :: "(string \<Rightarrow> string \<Rightarrow> rat) \<Rightarrow> string list \<Rightarrow> rat \<Rightarrow> nat \<Rightarrow> nat set \<Rightarrow> nat list \<Rightarrow> nat list" where
  "admitted ratio keys threshold a visited cands =
     filter (\<lambda>b. b \<noteq> a \<and> b \<notin> visited \<and> threshold \<le> ratio (keys ! a) (keys ! b)) cands"

definition set_score :: "(string \<Rightarrow> string \<Rightarrow> rat) \<Rightarrow> string list \<Rightarrow> nat \<Rightarrow> nat \<Rightarrow> dup_row \<Rightarrow> dup_row" where
  "set_score ratio keys a b r = r\<lparr>similarity_score := py_round (ratio (keys ! a) (keys ! b)) 3\<rparr>"

definition grouped :: "nat list list \<Rightarrow> nat set" where
  "grouped gs = \<Union> (set ` set gs)"

definition fuzzy_gid :: "nat \<Rightarrow> string" where
  "fuzzy_gid n = ''DG-'' @ fmt_04d n @ ''-F''"

text \<open>
  The invariant of the outer loop of the fuzzy phase, relative to the frame
  \<open>res0\<close> at its start: the visited rows are the rows of the groups; each group
  is a seed with the rows it admits, given the groups before it; the rows that
  were admitted carry their score and no other row has changed.
\<close>

definition fuzzy_inv ::
  "(string \<Rightarrow> string \<Rightarrow> rat) \<Rightarrow> string list \<Rightarrow> rat \<Rightarrow> nat list \<Rightarrow> dup_row list
     \<Rightarrow> nat set \<times> nat list list \<times> dup_row list \<Rightarrow> bool" where
  "fuzzy_inv ratio keys threshold cands res0 st =
     (case st of (visited, gs, res) \<Rightarrow>
        visited = grouped gs \<and> length res = length res0 \<and>
        (\<forall>n < length gs. \<exists>a. a \<in> set cands \<and> a \<notin> grouped (take n gs)
             \<and> admitted ratio keys threshold a (grouped (take n gs)) cands \<noteq> []
             \<and> gs ! n = a # admitted ratio keys threshold a (grouped (take n gs)) cands) \<and>
        (\<forall>n < length gs. \<forall>p \<in> set (tl (gs ! n)).
             res ! p = set_score ratio keys (hd (gs ! n)) p (res0 ! p)) \<and>
        (\<forall>p < length res0. (\<forall>n < length gs. p \<notin> set (tl (gs ! n))) \<longrightarrow> res ! p = res0 ! p))"

text \<open>The number that a string of decimal digits writes.\<close>

definition nat_of_digits :: "string \<Rightarrow> nat" where
  "nat_of_digits s = foldl (\<lambda>a c. 10 * a + (of_char c - 48)) 0 s"

subsection \<open>Observations of a run\<close>

text \<open>The group ids and the recency ranks of the rows of a run, in row order.\<close>

definition run_group_ids :: "py_error + (dup_frame \<times> nat list list option) \<Rightarrow> string option list" where
  "run_group_ids out = (case out of Inl e \<Rightarrow> [] | Inr (frame, groups) \<Rightarrow> map dup_group_id (dup_rows frame))"

definition run_recency_ranks :: "py_error + (dup_frame \<times> nat list list option) \<Rightarrow> int option list" where
  "run_recency_ranks out = (case out of Inl e \<Rightarrow> [] | Inr (frame, groups) \<Rightarrow> map recency_rank (dup_rows frame))"

text \<open>
  \<^verbatim>\<open>build_golden_records_df\<close> on the frame of a run that returned, and the row
  labels of the golden and of the discard set.
\<close>

definition golden_of_run ::
  "py_error + (dup_frame \<times> nat list list option) \<Rightarrow> string \<Rightarrow> py_error + (dup_frame \<times> dup_frame)" where
  "golden_of_run out strategy =
     (case out of Inl e \<Rightarrow> Inl e | Inr (frame, groups) \<Rightarrow> build_golden_records_df frame strategy)"

definition row_labels :: "py_error + (dup_frame \<times> dup_frame) \<Rightarrow> py_error + (nat list \<times> nat list)" where
  "row_labels out =
     (case out of Inl e \<Rightarrow> Inl e
      | Inr (golden, discards) \<Rightarrow> Inr (map r_index (dup_rows golden), map r_index (dup_rows discards)))"

subsection \<open>Example inputs\<close>


definition example_state :: session_state where
  "example_state =
     snd (create_case \<lparr> cases = [], case_counter = 0 \<rparr> ''2024-05-01 10:00'' ''Duplicates''
            ''Duplicate Records'' ''High'' [] 2 ''email'' ''Manual'' None)"


text \<open>
  A frame whose ids are twice two no-break spaces (U+00A0), twice the text
  \<^verbatim>\<open>NaN\<close>, and once \<^verbatim>\<open>x\<close>.
\<close>

definition example_blank_ids :: dataframe where
  "example_blank_ids =
     \<lparr> df_columns = [(''id'', ObjectDtype)],
       df_rows = [[Str [CHR 0xC2, CHR 0xA0, CHR 0xC2, CHR 0xA0]],
                  [Str [CHR 0xC2, CHR 0xA0, CHR 0xC2, CHR 0xA0]],
                  [Str ''NaN''], [Str ''NaN''], [Str ''x'']] \<rparr>"

text \<open>A frame with a repeated id, and a rule on its column.\<close>

definition example_ids :: dataframe where
  "example_ids = \<lparr> df_columns = [(''id'', ObjectDtype)],
                     df_rows = [[Str ''1''], [Str ''1''], [Str ''2'']] \<rparr>"

definition example_rule :: "string \<Rightarrow> expr \<Rightarrow> rule" where
  "example_rule t e = \<lparr> rule_type = Some t, rule_column = Some ''id'', rule_columns = None,
                         rule_expression = e, rule_message = Some ''bad id'',
                         rule_dimension = Some ''Validity'' \<rparr>"

text \<open>
  Stand-ins for the library calls where their value does not matter: no
  timestamp is rendered and no two keys are similar.
\<close>

definition no_ts :: "int \<Rightarrow> string" where
  "no_ts t = []"

definition no_ratio :: "string \<Rightarrow> string \<Rightarrow> rat" where
  "no_ratio a b = 0"

text \<open>
  Frames for the duplicate studio: names with two duplicate keys of different
  frequency; emails that are missing or spell \<^verbatim>\<open>NaN\<close>; names with a source
  column that is empty in a duplicate group; names with a datetime column.
\<close>

definition example_names :: dataframe where
  "example_names = \<lparr> df_columns = [(''name'', ObjectDtype)],
                       df_rows = [[Str ''a''], [Str ''a''], [Str ''b''], [Str ''b''], [Str ''b''],
                                  [Str ''c'']] \<rparr>"

definition example_emails :: dataframe where
  "example_emails = \<lparr> df_columns = [(''email'', ObjectDtype)],
                        df_rows = [[Null], [Null], [Str '' NaN'']] \<rparr>"

definition example_sources :: dataframe where
  "example_sources = \<lparr> df_columns = [(''name'', ObjectDtype), (''source'', ObjectDtype)],
                         df_rows = [[Str ''a'', Null], [Str ''a'', Null], [Str ''b'', Str ''crm'']] \<rparr>"

definition example_dated :: dataframe where
  "example_dated = \<lparr> df_columns = [(''name'', ObjectDtype), (''updated'', Datetime64)],
                       df_rows = [[Str ''a'', Ts 5], [Str ''a'', Ts 9], [Str ''b'', Ts 7]] \<rparr>"




section \<open>Lemmas on the helpers\<close>

subsection \<open>Rounding, texts and numbers\<close>






lemma to_double_0 [simp]: "to_double 0 = 0"
  by (simp add: to_double_def)

lemma round_half_even_0 [simp]: "round_half_even 0 = 0"
  by (simp add: round_half_even_def)



lemma startswith_iff: "startswith s p \<longleftrightarrow> (\<exists>t. s = p @ t)"
  by (induction s p rule: startswith.induct) auto

lemma prefix_free_whitespace: "prefix_free whitespace"
  by code_simp

lemma prefix_free_rev_whitespace: "prefix_free (map rev whitespace)"
  by code_simp

lemma prefix_freeD:
  assumes "prefix_free tab" "w \<in> set tab"
  shows "w \<noteq> []" and "w' \<in> set tab \<Longrightarrow> startswith w w' \<Longrightarrow> w = w'"
  using assms by (auto simp: prefix_free_def list_all_iff)

lemma match_len_cases:
  "match_len tab s = 0 \<and> (\<forall>w \<in> set tab. w \<noteq> [] \<longrightarrow> \<not> startswith s w)
   \<or> (\<exists>w \<in> set tab. startswith s w \<and> match_len tab s = length w)"
  by (induction tab) auto

lemma match_len_unique:
  assumes pf: "prefix_free tab" and w: "w \<in> set tab" and sw: "startswith s w"
  shows "match_len tab s = length w"
proof -
  from match_len_cases[of tab s] w sw prefix_freeD(1)[OF pf w]
  obtain w' where w': "w' \<in> set tab" "startswith s w'" "match_len tab s = length w'"
    by blast
  from sw w'(2) obtain t t' where "s = w @ t" "s = w' @ t'"
    unfolding startswith_iff by blast
  then have "w @ t = w' @ t'" by simp
  then have "startswith w w' \<or> startswith w' w"
    by (auto simp: append_eq_append_conv2 startswith_iff)
  with prefix_freeD(2)[OF pf w w'(1)] prefix_freeD(2)[OF pf w'(1) w] have "w = w'" by blast
  with w'(3) show ?thesis by simp
qed

lemma lstrip_by_Nil_D:
  "lstrip_by tab s = [] \<Longrightarrow> \<exists>ws. set ws \<subseteq> set tab \<and> s = concat ws"
proof (induction tab s rule: lstrip_by.induct)
  case (1 tab s)
  show ?case
  proof (cases "match_len tab s = 0")
    case True
    with 1(2) have "s = []" by (simp add: lstrip_by.simps[of tab s])
    then show ?thesis by (intro exI[of _ "[]"]) simp
  next
    case False
    with 1(2) have "lstrip_by tab (drop (match_len tab s) s) = []"
      by (simp add: lstrip_by.simps[of tab s])
    from 1(1)[OF False this] obtain ws where ws: "set ws \<subseteq> set tab" "drop (match_len tab s) s = concat ws"
      by blast
    from match_len_cases[of tab s] False obtain w where w: "w \<in> set tab" "startswith s w" "match_len tab s = length w"
      by auto
    from w(2) obtain t where "s = w @ t" by (auto simp: startswith_iff)
    with ws(2) w(3) have "s = concat (w # ws)" by simp
    with ws(1) w(1) show ?thesis by (intro exI[of _ "w # ws"]) simp
  qed
qed

lemma lstrip_by_concat:
  assumes pf: "prefix_free tab"
  shows "set ws \<subseteq> set tab \<Longrightarrow> lstrip_by tab (concat ws) = []"
proof (induction ws)
  case Nil
  have "match_len tab [] = 0" using match_len_cases[of tab "[]"] prefix_freeD(1)[OF pf]
    by (auto simp: startswith_iff)
  then show ?case by (simp add: lstrip_by.simps[of tab "[]"])
next
  case (Cons w ws)
  then have w: "w \<in> set tab" and ih: "lstrip_by tab (concat ws) = []" by auto
  have "startswith (concat (w # ws)) w" by (simp add: startswith_iff)
  from match_len_unique[OF pf w this] have m: "match_len tab (concat (w # ws)) = length w" .
  moreover have "w \<noteq> []" by (rule prefix_freeD(1)[OF pf w])
  ultimately show ?case
    using ih by (simp add: lstrip_by.simps[of tab "w @ concat ws"])
qed

lemma lstrip_by_Nil_iff:
  "prefix_free tab \<Longrightarrow> lstrip_by tab s = [] \<longleftrightarrow> (\<exists>ws. set ws \<subseteq> set tab \<and> s = concat ws)"
  using lstrip_by_Nil_D lstrip_by_concat by blast

lemma match_len_lstrip_by: "match_len tab (lstrip_by tab s) = 0"
proof (induction tab s rule: lstrip_by.induct)
  case (1 tab s)
  then show ?case by (cases "match_len tab s = 0") (simp_all add: lstrip_by.simps[of tab s])
qed

lemma concat_no_match:
  assumes pf: "prefix_free tab" and ws: "set ws \<subseteq> set tab" and m: "match_len tab (concat ws) = 0"
  shows "concat ws = []"
proof (cases ws)
  case Nil then show ?thesis by simp
next
  case (Cons w ws')
  with ws have w: "w \<in> set tab" by simp
  have "startswith (concat ws) w" using Cons by (simp add: startswith_iff)
  from match_len_unique[OF pf w this] m prefix_freeD(1)[OF pf w] show ?thesis by simp
qed

lemma rev_concat_tab:
  "(\<exists>ws. set ws \<subseteq> set (map rev tab) \<and> rev s = concat ws) \<longleftrightarrow> (\<exists>ws. set ws \<subseteq> set tab \<and> s = concat ws)"
proof
  assume "\<exists>ws. set ws \<subseteq> set (map rev tab) \<and> rev s = concat ws"
  then obtain ws where ws: "set ws \<subseteq> set (map rev tab)" "rev s = concat ws" by blast
  have "s = rev (concat ws)" using ws(2) by (metis rev_rev_ident)
  also have "\<dots> = concat (map rev (rev ws))" by (simp add: rev_concat)
  finally have "s = concat (map rev (rev ws))" .
  moreover have "set (map rev (rev ws)) \<subseteq> set tab" using ws(1) by auto
  ultimately show "\<exists>ws. set ws \<subseteq> set tab \<and> s = concat ws" by blast
next
  assume "\<exists>ws. set ws \<subseteq> set tab \<and> s = concat ws"
  then obtain ws where ws: "set ws \<subseteq> set tab" "s = concat ws" by blast
  have "rev s = concat (map rev (rev ws))" using ws(2) by (simp add: rev_concat)
  moreover have "set (map rev (rev ws)) \<subseteq> set (map rev tab)" using ws(1) by auto
  ultimately show "\<exists>ws. set ws \<subseteq> set (map rev tab) \<and> rev s = concat ws" by blast
qed

lemma py_strip_Nil_iff: "py_strip s = [] \<longleftrightarrow> only_whitespace s"
proof -
  let ?t = "lstrip_by whitespace s"
  have "py_strip s = [] \<longleftrightarrow> lstrip_by (map rev whitespace) (rev ?t) = []"
    by (simp add: py_strip_def)
  also have "\<dots> \<longleftrightarrow> (\<exists>ws. set ws \<subseteq> set (map rev whitespace) \<and> rev ?t = concat ws)"
    by (rule lstrip_by_Nil_iff[OF prefix_free_rev_whitespace])
  also have "\<dots> \<longleftrightarrow> (\<exists>ws. set ws \<subseteq> set whitespace \<and> ?t = concat ws)"
    by (rule rev_concat_tab)
  also have "\<dots> \<longleftrightarrow> ?t = []"
    using concat_no_match[OF prefix_free_whitespace _ ] match_len_lstrip_by[of whitespace s]
    by (metis concat.simps(1) empty_set empty_subsetI)
  also have "\<dots> \<longleftrightarrow> only_whitespace s"
    unfolding only_whitespace_def by (rule lstrip_by_Nil_iff[OF prefix_free_whitespace])
  finally show ?thesis .
qed

lemma py_lower_char_eq_iff:
  assumes "97 \<le> (of_char l :: nat)" "(of_char l :: nat) \<le> 122"
  shows "py_lower_char c = l \<longleftrightarrow> c = l \<or> c = char_of ((of_char l :: nat) - 32)"
proof -
  have inj: "\<And>a b :: char. (of_char a :: nat) = of_char b \<Longrightarrow> a = b"
    by simp
  show ?thesis
  proof (cases "65 \<le> (of_char c :: nat) \<and> (of_char c :: nat) \<le> 90")
    case True
    then have low: "py_lower_char c = char_of ((of_char c :: nat) + 32)"
      by (simp add: py_lower_char_def)
    have oc: "(of_char (char_of ((of_char c :: nat) + 32) :: char) :: nat) = of_char c + 32"
      using True by simp
    have ol: "(of_char (char_of ((of_char l :: nat) - 32) :: char) :: nat) = of_char l - 32"
      using assms by simp
    have "py_lower_char c = l \<longleftrightarrow> (of_char c :: nat) + 32 = of_char l"
      using inj[of "py_lower_char c" l] oc by (auto simp: low)
    also have "\<dots> \<longleftrightarrow> (of_char c :: nat) = of_char (char_of ((of_char l :: nat) - 32) :: char)"
      using assms by (auto simp: ol)
    also have "\<dots> \<longleftrightarrow> c = char_of ((of_char l :: nat) - 32)"
      using inj[of c "char_of ((of_char l :: nat) - 32)"] by auto
    finally have "py_lower_char c = l \<longleftrightarrow> c = char_of ((of_char l :: nat) - 32)" .
    moreover have "c \<noteq> l" using True assms by auto
    ultimately show ?thesis by simp
  next
    case False
    then have "py_lower_char c = c" by (auto simp: py_lower_char_def)
    moreover have "c \<noteq> char_of ((of_char l :: nat) - 32)"
    proof
      assume "c = char_of ((of_char l :: nat) - 32)"
      then have "(of_char c :: nat) = of_char l - 32" using assms by simp
      with False assms show False by auto
    qed
    ultimately show ?thesis by simp
  qed
qed

lemma py_lower_nan_iff: "py_lower s = ''nan'' \<longleftrightarrow> s \<in> set nan_spellings"
proof -
  have N: "char_of (78 :: nat) = CHR ''N''" and A: "char_of (65 :: nat) = CHR ''A''"
    by code_simp+
  have n: "\<And>c. py_lower_char c = CHR ''n'' \<longleftrightarrow> c = CHR ''n'' \<or> c = CHR ''N''"
    by (subst py_lower_char_eq_iff) (simp_all add: N)
  have a: "\<And>c. py_lower_char c = CHR ''a'' \<longleftrightarrow> c = CHR ''a'' \<or> c = CHR ''A''"
    by (subst py_lower_char_eq_iff) (simp_all add: A)
  have "py_lower s = ''nan'' \<longleftrightarrow>
        (\<exists>x y z. s = [x, y, z] \<and> py_lower_char x = CHR ''n'' \<and> py_lower_char y = CHR ''a''
                 \<and> py_lower_char z = CHR ''n'')"
    by (auto simp: py_lower_def map_eq_Cons_conv)
  also have "\<dots> \<longleftrightarrow> s \<in> set nan_spellings"
    unfolding n a nan_spellings_def by auto
  finally show ?thesis .
qed

lemma py_in_str_iff: "py_in_str kw s \<longleftrightarrow> (\<exists>pre post. s = pre @ kw @ post)"
proof (induction s)
  case Nil then show ?case by auto
next
  case (Cons c cs)
  show ?case
  proof
    assume "py_in_str kw (c # cs)"
    then consider "startswith (c # cs) kw" | "py_in_str kw cs" by auto
    then show "\<exists>pre post. c # cs = pre @ kw @ post"
    proof cases
      case 1
      then obtain t where "c # cs = kw @ t" by (auto simp: startswith_iff)
      then have "c # cs = [] @ kw @ t" by simp
      then show ?thesis by blast
    next
      case 2
      with Cons.IH obtain pre post where "cs = pre @ kw @ post" by auto
      then have "c # cs = (c # pre) @ kw @ post" by simp
      then show ?thesis by blast
    qed
  next
    assume "\<exists>pre post. c # cs = pre @ kw @ post"
    then obtain pre post where e: "c # cs = pre @ kw @ post" by auto
    show "py_in_str kw (c # cs)"
    proof (cases pre)
      case Nil
      with e have "startswith (c # cs) kw" by (auto simp: startswith_iff)
      then show ?thesis by simp
    next
      case (Cons a pre')
      with e have "cs = pre' @ kw @ post" by simp
      with Cons.IH have "py_in_str kw cs" by blast
      then show ?thesis by simp
    qed
  qed
qed





lemma of_char_digit: "d < 10 \<Longrightarrow> (of_char (digit_char d) :: nat) = 48 + d"
  by (simp add: digit_char_def)

lemma nat_of_digits_str_nat: "nat_of_digits (str_nat n) = n"
proof (induction n rule: str_nat.induct)
  case (1 n)
  show ?case
  proof (cases "n < 10")
    case True
    then show ?thesis
      by (subst str_nat.simps) (simp add: nat_of_digits_def of_char_digit)
  next
    case False
    with 1 have IH: "nat_of_digits (str_nat (n div 10)) = n div 10" by simp
    have "nat_of_digits (str_nat n) = 10 * nat_of_digits (str_nat (n div 10)) + n mod 10"
      using False by (subst str_nat.simps) (simp add: nat_of_digits_def of_char_digit)
    with IH show ?thesis by simp
  qed
qed

lemma nat_of_digits_zeros: "nat_of_digits (replicate k (CHR ''0'') @ s) = nat_of_digits s"
proof -
  have "foldl (\<lambda>a c. 10 * a + (of_char c - 48)) 0 (replicate k (CHR ''0'')) = (0::nat)"
    by (induction k) simp_all
  then show ?thesis by (simp add: nat_of_digits_def)
qed

lemma nat_of_digits_fmt_04d: "nat_of_digits (fmt_04d n) = n"
  by (simp add: fmt_04d_def Let_def nat_of_digits_zeros nat_of_digits_str_nat)

lemma fmt_04d_inj: "fmt_04d a = fmt_04d b \<Longrightarrow> a = b"
  by (metis nat_of_digits_fmt_04d)

subsection \<open>Lookup, counting and updates of lists\<close>

lemma index_of_Some_iff:
  "index_of x ys = Some k \<longleftrightarrow> k < length ys \<and> ys ! k = x \<and> (\<forall>j < k. ys ! j \<noteq> x)"
proof (induction ys arbitrary: k)
  case Nil then show ?case by simp
next
  case (Cons y ys)
  show ?case
  proof (cases "x = y")
    case True then show ?thesis by (cases k) auto
  next
    case False
    show ?thesis
    proof (cases k)
      case 0 with False show ?thesis by auto
    next
      case (Suc m)
      have "(\<forall>j<Suc m. (y # ys) ! j \<noteq> x) \<longleftrightarrow> (\<forall>j<m. ys ! j \<noteq> x)"
        using False by (auto simp: less_Suc_eq_0_disj)
      with False Suc Cons.IH[of m] show ?thesis by auto
    qed
  qed
qed

lemma index_of_None_iff: "index_of x ys = None \<longleftrightarrow> x \<notin> set ys"
  by (induction ys) auto

lemma fold_cache_lookup:
  "distinct (map snd kcs) \<Longrightarrow> (k, c) \<in> set kcs \<Longrightarrow>
   fold (\<lambda>(k, col) cache. cache(col \<mapsto> f k)) kcs m c = Some (f k)"
proof (induction kcs arbitrary: m)
  case Nil then show ?case by simp
next
  case (Cons a kcs)
  obtain k' c' where a: "a = (k', c')" by (cases a)
  have notin: "c \<notin> snd ` set kcs \<Longrightarrow> fold (\<lambda>(k, col) cache. cache(col \<mapsto> f k)) kcs m' c = m' c" for m'
    by (induction kcs arbitrary: m') (auto split: prod.splits)
  show ?case
  proof (cases "(k, c) \<in> set kcs")
    case True
    with Cons.prems have "fold (\<lambda>(k, col) cache. cache(col \<mapsto> f k)) kcs (m(c' \<mapsto> f k')) c = Some (f k)"
      by (intro Cons.IH) auto
    then show ?thesis unfolding a by (simp only: fold_simps comp_apply prod.case)
  next
    case False
    with Cons.prems a have eq: "k' = k" "c' = c" by auto
    from Cons.prems a eq have "c \<notin> snd ` set kcs" by auto
    then have "fold (\<lambda>(k, col) cache. cache(col \<mapsto> f k)) kcs (m(c \<mapsto> f k)) c = (m(c \<mapsto> f k)) c"
      by (rule notin)
    then show ?thesis unfolding a eq by (simp only: fold_simps comp_apply prod.case fun_upd_same)
  qed
qed

lemma set_unique_first [simp]: "set (unique_first xs) = set xs"
  by (induction xs rule: unique_first.induct) auto

lemma distinct_unique_first [simp]: "distinct (unique_first xs)"
  by (induction xs rule: unique_first.induct) auto

lemma set_counts_desc: "set (counts_desc xs) = (\<lambda>v. (v, count_list xs v)) ` set xs"
  by (auto simp: counts_desc_def)

lemma distinct_map_fst_counts_desc: "distinct (map fst (counts_desc xs))"
proof -
  have "distinct (map fst (map (\<lambda>v. (v, count_list xs v)) (unique_first xs)))"
    by (simp add: comp_def)
  moreover have "mset (map fst (counts_desc xs))
      = mset (map fst (map (\<lambda>v. (v, count_list xs v)) (unique_first xs)))"
    unfolding counts_desc_def by (simp only: mset_map mset_sort)
  ultimately show ?thesis
    by (metis mset_eq_imp_distinct_iff)
qed

lemma sorted_counts_desc: "sorted (map (\<lambda>(v, c). - int c) (counts_desc xs))"
  unfolding counts_desc_def by (rule sorted_sort_key)

lemma snd_counts_desc: "p \<in> set (counts_desc xs) \<Longrightarrow> snd p = count_list xs (fst p)"
  by (auto simp: set_counts_desc)

lemma count_list_filter: "P v \<Longrightarrow> count_list (filter P vs) v = count_list vs v"
  by (induction vs) auto

lemma set_value_counts:
  "set (value_counts vs) = (\<lambda>v. (v, count_list vs v)) ` {v \<in> set vs. notna v}"
  by (auto simp: value_counts_def set_counts_desc count_list_filter)

lemma fold_union_mem:
  "i \<in> fold (\<lambda>val acc. if P val then acc \<union> F val else acc) vals A
     \<longleftrightarrow> i \<in> A \<or> (\<exists>val \<in> set vals. P val \<and> i \<in> F val)"
  by (induction vals arbitrary: A) auto

lemma length_fold_update [simp]:
  "length (fold (\<lambda>idx res. res[idx := f (res ! idx)]) idxs result) = length result"
  by (induction idxs arbitrary: result) auto

lemma nth_fold_update:
  "distinct idxs \<Longrightarrow> p < length result \<Longrightarrow>
   fold (\<lambda>idx res. res[idx := f (res ! idx)]) idxs result ! p
     = (if p \<in> set idxs then f (result ! p) else result ! p)"
proof (induction idxs arbitrary: result)
  case Nil then show ?case by simp
next
  case (Cons a idxs)
  have len: "p < length (result[a := f (result ! a)])" using Cons.prems by simp
  have "fold (\<lambda>idx res. res[idx := f (res ! idx)]) (a # idxs) result ! p
      = fold (\<lambda>idx res. res[idx := f (res ! idx)]) idxs (result[a := f (result ! a)]) ! p"
    by simp
  also have "\<dots> = (if p \<in> set idxs then f (result[a := f (result ! a)] ! p) else result[a := f (result ! a)] ! p)"
    using Cons.prems len by (intro Cons.IH) auto
  also have "\<dots> = (if p \<in> set (a # idxs) then f (result ! p) else result ! p)"
    using Cons.prems by (cases "p = a") auto
  finally show ?case .
qed

lemma mset_filter_split: "mset (filter P xs) + mset (filter (\<lambda>x. \<not> P x) xs) = mset xs"
  by (induction xs) auto

lemma filter_label_single:
  "distinct (map f xs) \<Longrightarrow> x \<in> set xs \<Longrightarrow> filter (\<lambda>y. f y = f x) xs = [x]"
proof (induction xs)
  case Nil then show ?case by simp
next
  case (Cons a xs)
  show ?case
  proof (cases "a = x")
    case True
    with Cons.prems have "f x \<notin> f ` set xs" by simp
    then have "\<forall>y \<in> set xs. f y \<noteq> f x" by (metis imageI)
    then have "filter (\<lambda>y. f y = f x) xs = []" by (simp add: filter_empty_conv)
    with True show ?thesis by simp
  next
    case False
    with Cons.prems have x: "x \<in> set xs" by simp
    with Cons.prems have "f a \<noteq> f x" by auto
    with Cons x show ?thesis by simp
  qed
qed


section \<open>The overall score\<close>






section \<open>The rule executor\<close>

lemma dup_indices_of_iff:
  "i \<in> dup_indices_of vs \<longleftrightarrow>
     i < length vs \<and> notna (vs ! i) \<and> \<not> is_null_or_empty (vs ! i) \<and> 2 \<le> count_list vs (vs ! i)"
  unfolding dup_indices_of_def Let_def fold_union_mem
  by (auto simp: set_value_counts cell_eq_def)

lemma precompute_duplicates_lookup:
  assumes "distinct (col_names df)" "index_of c (col_names df) = Some k"
  shows "precompute_duplicates df c = Some (dup_indices_of (column_at df k))"
proof -
  from assms(2) have k: "k < length (col_names df)" "col_names df ! k = c"
    by (auto simp: index_of_Some_iff)
  then have "(k, c) \<in> set (enumerate 0 (col_names df))"
    by (auto simp: in_set_enumerate_eq)
  moreover have "distinct (map snd (enumerate 0 (col_names df)))"
    using assms(1) by simp
  ultimately show ?thesis
    unfolding precompute_duplicates_def by (rule fold_cache_lookup[rotated])
qed

lemma null_blank_or_nan_iff:
  "null_blank_or_nan v \<longleftrightarrow> \<not> notna v \<or> is_null_or_empty v"
  by (cases v) (simp_all add: py_strip_Nil_iff py_lower_nan_iff)

text \<open>
  C2. In a well-formed frame, a \<^verbatim>\<open>uniqueness\<close> rule on a column of the frame
  fails for a row exactly when the row's value in the column is not null, not
  blank (whitespace only) and not the text \<^verbatim>\<open>nan\<close> in any case, and occurs in
  at least two rows of the column.
\<close>

theorem uniqueness_rule_fails_iff:
  assumes "wf_df df"
    and "index_of c (col_names df) = Some k"
    and "i < length (df_rows df)"
    and "rule_type r = Some ''uniqueness''"
    and "rule_column r = Some c"
  shows "\<not> passed (execute_single_rule py_eval lib_check (init_engine df rulebook combos) (df_rows df ! i) r i)
     \<longleftrightarrow> (\<not> null_blank_or_nan (df_rows df ! i ! k)
          \<and> 2 \<le> count_list (column_at df k) (df_rows df ! i ! k))"
proof -
  have cache: "duplicate_cache (init_engine df rulebook combos) c = Some (dup_indices_of (column_at df k))"
    using assms(1,2) by (simp add: init_engine_def precompute_duplicates_lookup wf_df_def)
  have val: "column_at df k ! i = df_rows df ! i ! k"
    using assms(3) by (simp add: column_at_def)
  have len: "length (column_at df k) = length (df_rows df)"
    by (simp add: column_at_def)
  have "passed (execute_single_rule py_eval lib_check (init_engine df rulebook combos) (df_rows df ! i) r i)
        = (i \<notin> dup_indices_of (column_at df k))"
    using assms(2,4,5) cache
    by (simp add: execute_single_rule_def Let_def rule_body_def init_engine_def)
  then show ?thesis
    using assms(3) by (auto simp: dup_indices_of_iff val len null_blank_or_nan_iff)
qed

theorem uniqueness_rule_witness:
  "\<not> passed (execute_single_rule (\<lambda>e v. Inr True) (\<lambda>t v e. Inr True)
       (init_engine example_ids [] Map.empty) (df_rows example_ids ! 0)
       (example_rule ''uniqueness'' ENone) 0)
   \<and> passed (execute_single_rule (\<lambda>e v. Inr True) (\<lambda>t v e. Inr True)
       (init_engine example_ids [] Map.empty) (df_rows example_ids ! 2)
       (example_rule ''uniqueness'' ENone) 2)
   \<and> passed (execute_single_rule (\<lambda>e v. Inr True) (\<lambda>t v e. Inr True)
       (init_engine example_blank_ids [] Map.empty) (df_rows example_blank_ids ! 0)
       (example_rule ''uniqueness'' ENone) 0)
   \<and> passed (execute_single_rule (\<lambda>e v. Inr True) (\<lambda>t v e. Inr True)
       (init_engine example_blank_ids [] Map.empty) (df_rows example_blank_ids ! 2)
       (example_rule ''uniqueness'' ENone) 2)"
proof -
  have wf: "wf_df example_ids" by (simp add: wf_df_def example_ids_def col_names_def)
  have ix: "index_of ''id'' (col_names example_ids) = Some 0"
    by (simp add: example_ids_def col_names_def)
  have wfb: "wf_df example_blank_ids" by (simp add: wf_df_def example_blank_ids_def col_names_def)
  have ixb: "index_of ''id'' (col_names example_blank_ids) = Some 0"
    by (simp add: example_blank_ids_def col_names_def)
  have t: "rule_type (example_rule ''uniqueness'' ENone) = Some ''uniqueness''"
    and c: "rule_column (example_rule ''uniqueness'' ENone) = Some ''id''"
    by (simp_all add: example_rule_def)
  have "\<not> is_null_or_empty (Str ''1'')" and "\<not> is_null_or_empty (Str ''2'')"
    by code_simp+
  then have n1: "\<not> null_blank_or_nan (Str ''1'')" and n2: "\<not> null_blank_or_nan (Str ''2'')"
    by (simp_all only: null_blank_or_nan_iff notna.simps simp_thms)
  have "is_null_or_empty (Str [CHR 0xC2, CHR 0xA0, CHR 0xC2, CHR 0xA0])"
    by code_simp
  then have n3: "null_blank_or_nan (Str [CHR 0xC2, CHR 0xA0, CHR 0xC2, CHR 0xA0])"
    by (simp only: null_blank_or_nan_iff simp_thms)
  have n4: "null_blank_or_nan (Str ''NaN'')"
    by (simp add: nan_spellings_def)
  have col: "column_at example_ids 0 = [Str ''1'', Str ''1'', Str ''2'']"
    by (simp add: column_at_def example_ids_def)
  have r0: "df_rows example_ids ! 0 ! 0 = Str ''1''" and r2: "df_rows example_ids ! 2 ! 0 = Str ''2''"
    by (simp_all add: example_ids_def)
  have l0: "0 < length (df_rows example_ids)" and l2: "2 < length (df_rows example_ids)"
    by (simp_all add: example_ids_def)
  have b0: "df_rows example_blank_ids ! 0 ! 0 = Str [CHR 0xC2, CHR 0xA0, CHR 0xC2, CHR 0xA0]"
    and b2: "df_rows example_blank_ids ! 2 ! 0 = Str ''NaN''"
    by (simp_all add: example_blank_ids_def)
  have lb0: "0 < length (df_rows example_blank_ids)" and lb2: "2 < length (df_rows example_blank_ids)"
    by (simp_all add: example_blank_ids_def)
  from uniqueness_rule_fails_iff[OF wf ix l0 t c, of "\<lambda>e v. Inr True" "\<lambda>t v e. Inr True" "[]" Map.empty]
  have a: "\<not> passed (execute_single_rule (\<lambda>e v. Inr True) (\<lambda>t v e. Inr True)
       (init_engine example_ids [] Map.empty) (df_rows example_ids ! 0)
       (example_rule ''uniqueness'' ENone) 0)"
    using n1 by (simp add: col r0)
  from uniqueness_rule_fails_iff[OF wf ix l2 t c, of "\<lambda>e v. Inr True" "\<lambda>t v e. Inr True" "[]" Map.empty]
  have b: "passed (execute_single_rule (\<lambda>e v. Inr True) (\<lambda>t v e. Inr True)
       (init_engine example_ids [] Map.empty) (df_rows example_ids ! 2)
       (example_rule ''uniqueness'' ENone) 2)"
    using n2 by (simp add: col r2)
  from uniqueness_rule_fails_iff[OF wfb ixb lb0 t c, of "\<lambda>e v. Inr True" "\<lambda>t v e. Inr True" "[]" Map.empty]
  have d: "passed (execute_single_rule (\<lambda>e v. Inr True) (\<lambda>t v e. Inr True)
       (init_engine example_blank_ids [] Map.empty) (df_rows example_blank_ids ! 0)
       (example_rule ''uniqueness'' ENone) 0)"
    using n3 by (simp only: b0 simp_thms)
  from uniqueness_rule_fails_iff[OF wfb ixb lb2 t c, of "\<lambda>e v. Inr True" "\<lambda>t v e. Inr True" "[]" Map.empty]
  have e: "passed (execute_single_rule (\<lambda>e v. Inr True) (\<lambda>t v e. Inr True)
       (init_engine example_blank_ids [] Map.empty) (df_rows example_blank_ids ! 2)
       (example_rule ''uniqueness'' ENone) 2)"
    using n4 by (simp only: b2 simp_thms)
  from a b d e show ?thesis by simp
qed

text \<open>
  C9. For a \<^verbatim>\<open>custom_expression\<close> rule on a column of the row whose expression
  is a non-empty string: when the expression contains a forbidden token, or
  when its evaluation raises, \<^verbatim>\<open>_evaluate_safe_expression\<close> returns False and
  the rule comes out failed with the rule's message; no exception leaves the
  rule. With a forbidden token the result does not depend on what the
  evaluation would give: \<open>py_eval\<close> is arbitrary.
\<close>

theorem custom_expression_fails_closed:
  assumes "rule_type r = Some ''custom_expression''"
    and "rule_column r = Some c"
    and "index_of c (col_names (e_df eng)) = Some k"
    and "rule_expression r = EStr e"
    and "has_forbidden_token e \<or> (e \<noteq> [] \<and> (\<exists>err. py_eval e (row ! k) = Inl err))"
  shows "evaluate_safe_expression py_eval (row ! k) (EStr e) = False
     \<and> execute_single_rule py_eval lib_check eng row r row_idx
         = \<lparr> passed = False, message = default_str (rule_message r) ''Validation failed'',
             res_rule_type = Some ''custom_expression'', res_column = Some c,
             res_columns = None, dimension = default_str (rule_dimension r) ''General'' \<rparr>"
proof -
  have ne: "e \<noteq> []"
    using assms(5) by (auto simp: has_forbidden_token_def forbidden_tokens_def)
  have tok: "list_ex (\<lambda>kw. py_in_str kw e) forbidden_tokens = has_forbidden_token e"
    by (simp add: has_forbidden_token_def list_ex_iff py_in_str_iff)
  have ev: "evaluate_safe_expression py_eval (row ! k) (EStr e) = False"
    using assms(5) by (auto simp: evaluate_safe_expression_def safe_expression_body_def tok)
  have lib: "Some ''custom_expression'' \<notin> Some ` set library_rule_types"
    by (simp add: library_rule_types_def)
  have "rule_body py_eval lib_check eng (Some ''custom_expression'') c (row ! k) (EStr e) row_idx = Inr False"
    using ne ev lib by (simp add: rule_body_def)
  then show ?thesis
    using assms(1-4) ev by (simp add: execute_single_rule_def Let_def)
qed

theorem custom_expression_witness:
  "execute_single_rule (\<lambda>e v. Inr True) (\<lambda>t v e. Inr True) (init_engine example_ids [] Map.empty)
       [Str ''1''] (example_rule ''custom_expression'' (EStr ''open(value)'')) 0
     = \<lparr> passed = False, message = ''bad id'', res_rule_type = Some ''custom_expression'',
         res_column = Some ''id'', res_columns = None, dimension = ''Validity'' \<rparr>
   \<and> execute_single_rule (\<lambda>e v. Inl (PyException ''SyntaxError'')) (\<lambda>t v e. Inr True)
       (init_engine example_ids [] Map.empty)
       [Str ''1''] (example_rule ''custom_expression'' (EStr ''value >'')) 0
     = \<lparr> passed = False, message = ''bad id'', res_rule_type = Some ''custom_expression'',
         res_column = Some ''id'', res_columns = None, dimension = ''Validity'' \<rparr>"
proof -
  have ix: "index_of ''id'' (col_names (e_df (init_engine example_ids [] Map.empty))) = Some 0"
    by (simp add: example_ids_def col_names_def init_engine_def)
  have "py_in_str ''open'' ''open(value)''" by code_simp
  then have "\<exists>pre post. ''open(value)'' = pre @ ''open'' @ post"
    by (simp only: py_in_str_iff)
  then have tok: "has_forbidden_token ''open(value)''"
    unfolding has_forbidden_token_def forbidden_tokens_def by simp
  have err: "''value >'' \<noteq> [] \<and> (\<exists>err. (\<lambda>e v. Inl (PyException ''SyntaxError'')) ''value >'' ([Str ''1''] ! 0) = Inl err)"
    by simp
  have a: "execute_single_rule (\<lambda>e v. Inr True) (\<lambda>t v e. Inr True) (init_engine example_ids [] Map.empty)
       [Str ''1''] (example_rule ''custom_expression'' (EStr ''open(value)'')) 0
     = \<lparr> passed = False, message = ''bad id'', res_rule_type = Some ''custom_expression'',
         res_column = Some ''id'', res_columns = None, dimension = ''Validity'' \<rparr>"
    using custom_expression_fails_closed[of "example_rule ''custom_expression'' (EStr ''open(value)'')"
        "''id''" "init_engine example_ids [] Map.empty" 0 "''open(value)''" "\<lambda>e v. Inr True" "[Str ''1'']"
        "\<lambda>t v e. Inr True" 0] ix tok
    by (simp add: example_rule_def default_str_def)
  have b: "execute_single_rule (\<lambda>e v. Inl (PyException ''SyntaxError'')) (\<lambda>t v e. Inr True)
       (init_engine example_ids [] Map.empty)
       [Str ''1''] (example_rule ''custom_expression'' (EStr ''value >'')) 0
     = \<lparr> passed = False, message = ''bad id'', res_rule_type = Some ''custom_expression'',
         res_column = Some ''id'', res_columns = None, dimension = ''Validity'' \<rparr>"
    using custom_expression_fails_closed[of "example_rule ''custom_expression'' (EStr ''value >'')"
        "''id''" "init_engine example_ids [] Map.empty" 0 "''value >''"
        "\<lambda>e v. Inl (PyException ''SyntaxError'')" "[Str ''1'']" "\<lambda>t v e. Inr True" 0] ix err
    by (simp add: example_rule_def default_str_def)
  from a b show ?thesis by simp
qed


section \<open>Case creation and status updates\<close>

lemma update_cases_absent:
  "case_id \<notin> c_case_id ` set cs \<Longrightarrow> update_cases cs case_id new_status note by now = cs"
  by (induction cs) auto

lemma update_cases_first:
  "i < length cs \<Longrightarrow> c_case_id (cs ! i) = case_id \<Longrightarrow> (\<forall>j < i. c_case_id (cs ! j) \<noteq> case_id)
    \<Longrightarrow> update_cases cs case_id new_status note by now = cs[i := apply_status (cs ! i) new_status note by now]"
proof (induction cs arbitrary: i)
  case Nil then show ?case by simp
next
  case (Cons c cs)
  show ?case
  proof (cases i)
    case 0 with Cons.prems show ?thesis by simp
  next
    case (Suc k)
    with Cons.prems have "c_case_id c \<noteq> case_id" by auto
    moreover have "update_cases cs case_id new_status note by now = cs[k := apply_status (cs ! k) new_status note by now]"
      using Cons.prems Suc by (intro Cons.IH) auto
    ultimately show ?thesis using Suc by simp
  qed
qed

lemma apply_status_fields:
  "c_status (apply_status c new_status note by now) = new_status"
  "c_updated_at (apply_status c new_status note by now) = now"
  "c_resolved_at (apply_status c new_status note by now) =
     (if new_status = ''Resolved'' \<or> new_status = ''Closed'' then now else c_resolved_at c)"
  "c_history (apply_status c new_status note by now) =
     c_history c @ [\<lparr> h_ts = now, h_action = status_change_action (c_status c) new_status note, h_by = by \<rparr>]"
  "c_case_id (apply_status c new_status note by now) = c_case_id c"
  by (simp_all add: apply_status_def Let_def)

text \<open>
  C8. \<^verbatim>\<open>create_case\<close>, on every session state (the one without cases
  included), appends one case, whose history is the single entry
  "Case created". \<^verbatim>\<open>update_case_status\<close> on a case list that has the id changes
  the first case with the id and no other: the status becomes the new status,
  whatever the two are, \<^verbatim>\<open>updated_at\<close> becomes the current time,
  \<^verbatim>\<open>resolved_at\<close> becomes the current time when the new status is Resolved or
  Closed and is unchanged otherwise, and the history grows by exactly one entry,
  whose action starts with "Status changed: old, arrow, new".
\<close>

theorem case_history_invariants:
  "c_history (fst (create_case st now title case_type priority description affected_records
                           affected_columns source extra))
           = [\<lparr> h_ts = now, h_action = ''Case created'', h_by = ''System'' \<rparr>]
     \<and> cases (snd (create_case st now title case_type priority description affected_records
                           affected_columns source extra))
           = cases st @ [fst (create_case st now title case_type priority description affected_records
                           affected_columns source extra)]
     \<and> (\<forall>i. i < length (cases st) \<and> c_case_id (cases st ! i) = case_id
              \<and> (\<forall>j < i. c_case_id (cases st ! j) \<noteq> case_id)
          \<longrightarrow> cases (update_case_status st now case_id new_status note by)
                 = (cases st)[i := apply_status (cases st ! i) new_status note by now]
            \<and> c_status (cases (update_case_status st now case_id new_status note by) ! i) = new_status
            \<and> c_updated_at (cases (update_case_status st now case_id new_status note by) ! i) = now
            \<and> c_resolved_at (cases (update_case_status st now case_id new_status note by) ! i)
                 = (if new_status = ''Resolved'' \<or> new_status = ''Closed'' then now
                    else c_resolved_at (cases st ! i))
            \<and> c_history (cases (update_case_status st now case_id new_status note by) ! i)
                 = c_history (cases st ! i)
                   @ [\<lparr> h_ts = now,
                        h_action = ''Status changed: '' @ c_status (cases st ! i) @ '' '' @ arrow @ '' ''
                                   @ new_status @ (if note \<noteq> [] then '' ('' @ note @ '')'' else []),
                        h_by = by \<rparr>])"
proof (intro conjI allI impI)
  show "c_history (fst (create_case st now title case_type priority description affected_records
                           affected_columns source extra))
           = [\<lparr> h_ts = now, h_action = ''Case created'', h_by = ''System'' \<rparr>]"
    by (simp add: create_case_def next_case_id_def Let_def)
  show "cases (snd (create_case st now title case_type priority description affected_records
                           affected_columns source extra))
           = cases st @ [fst (create_case st now title case_type priority description affected_records
                           affected_columns source extra)]"
    by (simp add: create_case_def next_case_id_def Let_def)
next
  fix i
  assume h: "i < length (cases st) \<and> c_case_id (cases st ! i) = case_id
              \<and> (\<forall>j < i. c_case_id (cases st ! j) \<noteq> case_id)"
  then have upd: "cases (update_case_status st now case_id new_status note by)
           = (cases st)[i := apply_status (cases st ! i) new_status note by now]"
    by (simp add: update_case_status_def update_cases_first)
  from h have i: "i < length (cases st)" by simp
  show "cases (update_case_status st now case_id new_status note by)
           = (cases st)[i := apply_status (cases st ! i) new_status note by now]"
    by (rule upd)
  show "c_status (cases (update_case_status st now case_id new_status note by) ! i) = new_status"
    using i by (simp add: upd apply_status_fields)
  show "c_updated_at (cases (update_case_status st now case_id new_status note by) ! i) = now"
    using i by (simp add: upd apply_status_fields)
  show "c_resolved_at (cases (update_case_status st now case_id new_status note by) ! i)
           = (if new_status = ''Resolved'' \<or> new_status = ''Closed'' then now
              else c_resolved_at (cases st ! i))"
    using i by (simp add: upd apply_status_fields)
  show "c_history (cases (update_case_status st now case_id new_status note by) ! i)
           = c_history (cases st ! i)
             @ [\<lparr> h_ts = now,
                  h_action = ''Status changed: '' @ c_status (cases st ! i) @ '' '' @ arrow @ '' ''
                             @ new_status @ (if note \<noteq> [] then '' ('' @ note @ '')'' else []),
                  h_by = by \<rparr>]"
    using i by (simp add: upd apply_status_fields status_change_action_def)
qed

theorem case_history_witness:
  "c_history (fst (create_case \<lparr> cases = [], case_counter = 0 \<rparr> ''2024-05-01 10:00'' ''Duplicates''
            ''Duplicate Records'' ''High'' [] 2 ''email'' ''Manual'' None))
     = [\<lparr> h_ts = ''2024-05-01 10:00'', h_action = ''Case created'', h_by = ''System'' \<rparr>]
   \<and> cases example_state
     = [fst (create_case \<lparr> cases = [], case_counter = 0 \<rparr> ''2024-05-01 10:00'' ''Duplicates''
            ''Duplicate Records'' ''High'' [] 2 ''email'' ''Manual'' None)]
   \<and> cases (update_case_status example_state ''2024-05-02 09:30'' ''CASE-0001'' ''Resolved'' ''merged'' ''User'')
     = [(cases example_state ! 0)
          \<lparr> c_status := ''Resolved'', c_updated_at := ''2024-05-02 09:30'',
            c_resolved_at := ''2024-05-02 09:30'',
            c_history := [\<lparr> h_ts = ''2024-05-01 10:00'', h_action = ''Case created'', h_by = ''System'' \<rparr>,
                          \<lparr> h_ts = ''2024-05-02 09:30'',
                            h_action = ''Status changed: Open '' @ arrow @ '' Resolved (merged)'',
                            h_by = ''User'' \<rparr>] \<rparr>]"
proof -
  note cr = case_history_invariants[where st = "\<lparr> cases = [], case_counter = 0 \<rparr>" and now = "''2024-05-01 10:00''"
      and title = "''Duplicates''" and case_type = "''Duplicate Records''" and priority = "''High''"
      and description = "[]" and affected_records = 2 and affected_columns = "''email''"
      and source = "''Manual''" and extra = None]
  from cr have a: "c_history (fst (create_case \<lparr> cases = [], case_counter = 0 \<rparr> ''2024-05-01 10:00'' ''Duplicates''
            ''Duplicate Records'' ''High'' [] 2 ''email'' ''Manual'' None))
     = [\<lparr> h_ts = ''2024-05-01 10:00'', h_action = ''Case created'', h_by = ''System'' \<rparr>]"
    by blast
  from cr have b: "cases example_state
     = [fst (create_case \<lparr> cases = [], case_counter = 0 \<rparr> ''2024-05-01 10:00'' ''Duplicates''
            ''Duplicate Records'' ''High'' [] 2 ''email'' ''Manual'' None)]"
    unfolding example_state_def by simp
  have id: "c_case_id (cases example_state ! 0) = ''CASE-0001''"
    by code_simp
  have len: "0 < length (cases example_state)"
    by (simp add: b)
  have one: "cases example_state = [cases example_state ! 0]"
    by (simp add: b)
  have fields: "c_status (cases example_state ! 0) = ''Open''"
      "c_history (cases example_state ! 0) = [\<lparr> h_ts = ''2024-05-01 10:00'', h_action = ''Case created'', h_by = ''System'' \<rparr>]"
    by (simp_all add: example_state_def create_case_def next_case_id_def Let_def)
  from case_history_invariants[of example_state "''2024-05-02 09:30''" _ _ _ _ _ _ _ _ "''CASE-0001''"
         "''Resolved''" "''merged''" "''User''"] len id
  have "cases (update_case_status example_state ''2024-05-02 09:30'' ''CASE-0001'' ''Resolved'' ''merged'' ''User'')
           = (cases example_state)[0 := apply_status (cases example_state ! 0) ''Resolved'' ''merged'' ''User'' ''2024-05-02 09:30'']"
    by blast
  also have "\<dots> = [apply_status (cases example_state ! 0) ''Resolved'' ''merged'' ''User'' ''2024-05-02 09:30'']"
    by (subst one) simp
  finally have c: "cases (update_case_status example_state ''2024-05-02 09:30'' ''CASE-0001'' ''Resolved'' ''merged'' ''User'')
     = [(cases example_state ! 0)
          \<lparr> c_status := ''Resolved'', c_updated_at := ''2024-05-02 09:30'',
            c_resolved_at := ''2024-05-02 09:30'',
            c_history := [\<lparr> h_ts = ''2024-05-01 10:00'', h_action = ''Case created'', h_by = ''System'' \<rparr>,
                          \<lparr> h_ts = ''2024-05-02 09:30'',
                            h_action = ''Status changed: Open '' @ arrow @ '' Resolved (merged)'',
                            h_by = ''User'' \<rparr>] \<rparr>]"
    by (simp add: apply_status_def Let_def fields status_change_action_def)
  from a b c show ?thesis by blast
qed

text \<open>
  C10. \<^verbatim>\<open>update_case_status\<close> with an id that no case has returns the session
  state as it was: no case changes, and nothing is raised.
\<close>

theorem update_case_status_absent:
  "case_id \<notin> c_case_id ` set (cases st) \<Longrightarrow> update_case_status st now case_id new_status note by = st"
  by (simp add: update_case_status_def update_cases_absent)

theorem update_case_status_absent_witness:
  "update_case_status example_state ''2024-05-02 09:30'' ''CASE-0007'' ''Closed'' [] ''User'' = example_state"
proof -
  have "map c_case_id (cases example_state) = [''CASE-0001'']"
    by code_simp
  then have "c_case_id ` set (cases example_state) = {''CASE-0001''}"
    by (simp only: set_map[symmetric] list.set)
  then have "''CASE-0007'' \<notin> c_case_id ` set (cases example_state)"
    by simp
  then show ?thesis by (rule update_case_status_absent)
qed


section \<open>The exact phase\<close>

lemma distinct_dup_keys_of: "distinct (dup_keys_of keys)"
  unfolding dup_keys_of_def using distinct_map_fst_counts_desc[of keys]
  by (simp add: distinct_map_filter)

lemma set_dup_keys_of: "set (dup_keys_of keys) = {k \<in> set keys. 1 < count_list keys k}"
  by (force simp: dup_keys_of_def set_counts_desc)

lemma sorted_dup_keys_of:
  "sorted_wrt (\<lambda>a b. count_list keys b \<le> count_list keys a) (dup_keys_of keys)"
proof -
  let ?cd = "counts_desc keys"
  let ?f = "filter (\<lambda>(v, c). c > 1) ?cd"
  have "sorted (map (\<lambda>(v, c). - int c) ?f)"
    using sorted_counts_desc[of keys] by (simp add: sorted_filter)
  then have "sorted_wrt (\<lambda>p q. - int (snd p) \<le> - int (snd q)) ?f"
    by (simp add: sorted_map case_prod_unfold)
  then have "sorted_wrt (\<lambda>p q. count_list keys (fst q) \<le> count_list keys (fst p)) ?f"
    by (rule sorted_wrt_mono_rel[rotated]) (auto simp: set_counts_desc)
  then show ?thesis
    by (simp add: dup_keys_of_def sorted_wrt_map)
qed

lemma key_rows: "set (filter (\<lambda>i. keys ! i = key) [0..<length keys]) = {i. i < length keys \<and> keys ! i = key}"
  by auto

lemma length_key_rows: "length (filter (\<lambda>i. keys ! i = key) [0..<length keys]) = count_list keys key"
proof -
  have "length (filter (\<lambda>i. keys ! i = key) [0..<length keys])
      = length (filter (\<lambda>k. k = key) (map (\<lambda>i. keys ! i) [0..<length keys]))"
    by (simp add: filter_map comp_def)
  also have "\<dots> = length (filter (\<lambda>k. k = key) keys)" by (simp add: map_nth)
  also have "\<dots> = count_list keys key"
    by (induction keys) auto
  finally show ?thesis .
qed

lemma exact_step_fst [simp]: "fst (exact_step keys key (g, result)) = g + 1"
  by (simp add: exact_step_def Let_def)

lemma exact_step_length [simp]: "length (snd (exact_step keys key (g, result))) = length result"
  by (simp add: exact_step_def Let_def)

lemma exact_step_nth:
  "p < length result \<Longrightarrow> length result = length keys \<Longrightarrow>
   snd (exact_step keys key (g, result)) ! p
     = (if keys ! p = key then mark_exact (''DG-'' @ fmt_04d (g + 1)) (count_list keys key) (result ! p)
        else result ! p)"
  by (simp add: exact_step_def Let_def nth_fold_update length_key_rows)

lemma exact_fold_fst: "fst (fold (exact_step keys) ks (g, result)) = g + length ks"
proof (induction ks arbitrary: g result)
  case Nil then show ?case by simp
next
  case (Cons k ks)
  obtain g' r' where s: "exact_step keys k (g, result) = (g', r')" by (cases "exact_step keys k (g, result)")
  then have "g' = g + 1" using exact_step_fst[of keys k g result] by simp
  with Cons.IH[of g' r'] s show ?case by simp
qed

lemma exact_fold_length: "length (snd (fold (exact_step keys) ks (g, result))) = length result"
proof (induction ks arbitrary: g result)
  case Nil then show ?case by simp
next
  case (Cons k ks)
  obtain g' r' where s: "exact_step keys k (g, result) = (g', r')" by (cases "exact_step keys k (g, result)")
  then have "length r' = length result" using exact_step_length[of keys k g result] by simp
  with Cons.IH[of g' r'] s show ?case by simp
qed

lemma exact_fold_nth:
  "distinct ks \<Longrightarrow> p < length result \<Longrightarrow> length result = length keys \<Longrightarrow>
   snd (fold (exact_step keys) ks (g, result)) ! p
     = (case index_of (keys ! p) ks of
          None \<Rightarrow> result ! p
        | Some n \<Rightarrow> mark_exact (''DG-'' @ fmt_04d (g + n + 1)) (count_list keys (keys ! p)) (result ! p))"
proof (induction ks arbitrary: g result)
  case Nil then show ?case by simp
next
  case (Cons k ks)
  obtain g' r' where s: "exact_step keys k (g, result) = (g', r')" by (cases "exact_step keys k (g, result)")
  have g': "g' = g + 1" using exact_step_fst[of keys k g result] s by simp
  have len: "length r' = length result" using exact_step_length[of keys k g result] s by simp
  have nth: "r' ! p = (if keys ! p = k then mark_exact (''DG-'' @ fmt_04d (g + 1)) (count_list keys k) (result ! p)
        else result ! p)"
    using exact_step_nth[of p result keys k g] s Cons.prems by simp
  have IH: "snd (fold (exact_step keys) ks (g', r')) ! p
     = (case index_of (keys ! p) ks of
          None \<Rightarrow> r' ! p
        | Some n \<Rightarrow> mark_exact (''DG-'' @ fmt_04d (g' + n + 1)) (count_list keys (keys ! p)) (r' ! p))"
    using Cons.prems len by (intro Cons.IH) auto
  show ?case
  proof (cases "keys ! p = k")
    case True
    then have "keys ! p \<notin> set ks" using Cons.prems(1) by simp
    then have "index_of (keys ! p) ks = None"
      by (simp add: index_of_None_iff)
    with True IH nth s show ?thesis by simp
  next
    case False
    with IH nth s g' show ?thesis by (auto split: option.splits)
  qed
qed

lemma exact_phase_fst: "fst (exact_phase keys result) = length (dup_keys_of keys)"
  by (simp add: exact_phase_def exact_fold_fst)

lemma exact_phase_length: "length (snd (exact_phase keys result)) = length result"
  by (simp add: exact_phase_def exact_fold_length)

lemma exact_phase_nth:
  "p < length result \<Longrightarrow> length result = length keys \<Longrightarrow>
   snd (exact_phase keys result) ! p
     = (case index_of (keys ! p) (dup_keys_of keys) of
          None \<Rightarrow> result ! p
        | Some n \<Rightarrow> mark_exact (''DG-'' @ fmt_04d (n + 1)) (count_list keys (keys ! p)) (result ! p))"
  unfolding exact_phase_def
  using exact_fold_nth[where ks="dup_keys_of keys" and g=0 and p=p and result=result and keys=keys]
    distinct_dup_keys_of[of keys] by (auto split: option.splits)


lemma length_init_rows [simp]: "length (init_rows df) = length (df_rows df)"
  by (simp add: init_rows_def)

lemma nth_init_rows:
  "p < length (df_rows df) \<Longrightarrow>
   init_rows df ! p = \<lparr> r_index = p, r_values = df_rows df ! p, dup_group_id = None,
                         is_duplicate = False, dup_count = 0, match_type = [], similarity_score = 0,
                         completeness = completeness_of (df_columns df) (df_rows df ! p),
                         recency_rank = None \<rparr>"
  by (simp add: init_rows_def nth_enumerate_eq)

lemma unassigned_rows_props:
  "distinct (unassigned_rows result n)"
  "set (unassigned_rows result n) = {j. j < n \<and> \<not> is_duplicate (result ! j)}"
  by (auto simp: unassigned_rows_def)




section \<open>The fuzzy phase\<close>

subsection \<open>The scan of a seed\<close>

lemma scan_step_eq:
  "scan_step ratio keys threshold a a visited (c, c) (grp, result)
     = (if c \<noteq> a \<and> c \<notin> visited \<and> threshold \<le> ratio (keys ! a) (keys ! c)
        then (grp @ [c], result[c := set_score ratio keys a c (result ! c)])
        else (grp, result))"
  by (simp add: scan_step_def set_score_def Let_def)

lemma scan_fold:
  "fold (scan_step ratio keys threshold a a visited) (map (\<lambda>j. (j, j)) cands) (grp, result)
     = (grp @ admitted ratio keys threshold a visited cands,
        fold (\<lambda>b res. res[b := set_score ratio keys a b (res ! b)])
             (admitted ratio keys threshold a visited cands) result)"
proof (induction cands arbitrary: grp result)
  case Nil
  then show ?case by (simp add: admitted_def)
next
  case (Cons c cands)
  have step: "fold (scan_step ratio keys threshold a a visited) (map (\<lambda>j. (j, j)) (c # cands)) (grp, result)
      = fold (scan_step ratio keys threshold a a visited) (map (\<lambda>j. (j, j)) cands)
          (scan_step ratio keys threshold a a visited (c, c) (grp, result))"
    by simp
  show ?case
  proof (cases "c \<noteq> a \<and> c \<notin> visited \<and> threshold \<le> ratio (keys ! a) (keys ! c)")
    case True
    then have adm: "admitted ratio keys threshold a visited (c # cands)
        = c # admitted ratio keys threshold a visited cands"
      by (simp add: admitted_def)
    show ?thesis
      unfolding step scan_step_eq adm using True by (simp add: Cons.IH)
  next
    case False
    then have adm: "admitted ratio keys threshold a visited (c # cands)
        = admitted ratio keys threshold a visited cands"
      by (auto simp: admitted_def)
    show ?thesis
      unfolding step scan_step_eq adm using False by (simp add: Cons.IH)
  qed
qed

lemma length_fold_score [simp]:
  "length (fold (\<lambda>b res. res[b := set_score ratio keys a b (res ! b)]) bs result) = length result"
  by (induction bs arbitrary: result) auto

lemma nth_fold_score:
  "distinct bs \<Longrightarrow> p < length result \<Longrightarrow>
   fold (\<lambda>b res. res[b := set_score ratio keys a b (res ! b)]) bs result ! p
     = (if p \<in> set bs then set_score ratio keys a p (result ! p) else result ! p)"
proof (induction bs arbitrary: result)
  case Nil then show ?case by simp
next
  case (Cons b bs)
  have len: "p < length (result[b := set_score ratio keys a b (result ! b)])" using Cons.prems by simp
  have "fold (\<lambda>b res. res[b := set_score ratio keys a b (res ! b)]) (b # bs) result ! p
      = fold (\<lambda>b res. res[b := set_score ratio keys a b (res ! b)]) bs (result[b := set_score ratio keys a b (result ! b)]) ! p"
    by simp
  also have "\<dots> = (if p \<in> set bs then set_score ratio keys a p (result[b := set_score ratio keys a b (result ! b)] ! p)
                    else result[b := set_score ratio keys a b (result ! b)] ! p)"
    using Cons.prems len by (intro Cons.IH) auto
  also have "\<dots> = (if p \<in> set (b # bs) then set_score ratio keys a p (result ! p) else result ! p)"
    using Cons.prems by (cases "p = b") auto
  finally show ?case .
qed

lemma enumerate_upt: "enumerate 0 [0..<n] = map (\<lambda>j. (j, j)) [0..<n]"
  by (simp add: enumerate_eq_zip zip_same_conv_map)

lemma unassigned_eq:
  "filter (\<lambda>(i, idx). \<not> is_duplicate (result ! idx)) (enumerate 0 [0..<n])
     = map (\<lambda>j. (j, j)) (unassigned_rows result n)"
  by (simp add: enumerate_upt unassigned_rows_def filter_map comp_def)

lemma admitted_props:
  "set (admitted ratio keys threshold a visited cands) \<subseteq> set cands - visited - {a}"
  "distinct cands \<Longrightarrow> distinct (admitted ratio keys threshold a visited cands)"
  by (auto simp: admitted_def)

subsection \<open>The loop over the seeds\<close>

lemma grouped_append [simp]: "grouped (gs @ [g]) = grouped gs \<union> set g"
  by (auto simp: grouped_def)

lemma grouped_Nil [simp]: "grouped [] = {}"
  by (simp add: grouped_def)

lemma grouped_nth: "n < length gs \<Longrightarrow> set (gs ! n) \<subseteq> grouped gs"
proof -
  assume "n < length gs"
  then have "gs ! n \<in> set gs" by simp
  then show ?thesis unfolding grouped_def by blast
qed

lemma seed_step_eq:
  "seed_step ratio keys threshold (map (\<lambda>j. (j, j)) cands) (a, a) (visited, gs, res)
     = (if a \<in> visited then (visited, gs, res)
        else if admitted ratio keys threshold a visited cands \<noteq> []
        then (visited \<union> set (a # admitted ratio keys threshold a visited cands),
              gs @ [a # admitted ratio keys threshold a visited cands],
              fold (\<lambda>b r. r[b := set_score ratio keys a b (r ! b)])
                   (admitted ratio keys threshold a visited cands) res)
        else (visited, gs, res))"
proof -
  have "length ([a] @ admitted ratio keys threshold a visited cands) > 1
      \<longleftrightarrow> admitted ratio keys threshold a visited cands \<noteq> []"
    by (cases "admitted ratio keys threshold a visited cands") auto
  moreover have "admitted ratio keys threshold a visited cands = [] \<Longrightarrow>
     fold (\<lambda>b r. r[b := set_score ratio keys a b (r ! b)])
                   (admitted ratio keys threshold a visited cands) res = res"
    by simp
  ultimately show ?thesis
    unfolding seed_step_def by (auto simp: scan_fold Let_def)
qed

lemma fuzzy_inv_step:
  assumes inv: "fuzzy_inv ratio keys threshold cands res0 st"
    and a: "a \<in> set cands"
    and dist: "distinct cands"
    and bound: "\<forall>c \<in> set cands. c < length res0"
  shows "fuzzy_inv ratio keys threshold cands res0
           (seed_step ratio keys threshold (map (\<lambda>j. (j, j)) cands) (a, a) st)"
proof -
  obtain visited gs res where st: "st = (visited, gs, res)" by (cases st)
  let ?adm = "admitted ratio keys threshold a visited cands"
  from inv st have V: "visited = grouped gs" and len: "length res = length res0"
    and G: "\<forall>n < length gs. \<exists>a. a \<in> set cands \<and> a \<notin> grouped (take n gs)
             \<and> admitted ratio keys threshold a (grouped (take n gs)) cands \<noteq> []
             \<and> gs ! n = a # admitted ratio keys threshold a (grouped (take n gs)) cands"
    and S: "\<forall>n < length gs. \<forall>p \<in> set (tl (gs ! n)).
             res ! p = set_score ratio keys (hd (gs ! n)) p (res0 ! p)"
    and F: "\<forall>p < length res0. (\<forall>n < length gs. p \<notin> set (tl (gs ! n))) \<longrightarrow> res ! p = res0 ! p"
    by (auto simp: fuzzy_inv_def)
  show ?thesis
  proof (cases "a \<notin> visited \<and> ?adm \<noteq> []")
    case False
    then have "seed_step ratio keys threshold (map (\<lambda>j. (j, j)) cands) (a, a) st = st"
      unfolding st seed_step_eq by auto
    with inv show ?thesis by simp
  next
    case True
    let ?g = "a # ?adm"
    let ?res' = "fold (\<lambda>b r. r[b := set_score ratio keys a b (r ! b)]) ?adm res"
    have eq: "seed_step ratio keys threshold (map (\<lambda>j. (j, j)) cands) (a, a) st
        = (visited \<union> set ?g, gs @ [?g], ?res')"
      unfolding st seed_step_eq using True by simp
    have admV: "set ?adm \<inter> visited = {}" and adm_c: "set ?adm \<subseteq> set cands"
      and adm_d: "distinct ?adm"
      using admitted_props(1)[of ratio keys threshold a visited cands]
        admitted_props(2)[OF dist, of ratio keys threshold a visited] by auto
    have adm_b: "\<forall>p \<in> set ?adm. p < length res" using adm_c bound len by auto
    have tl_in_V: "p \<in> visited" if "n < length gs" "p \<in> set (tl (gs ! n))" for n p
    proof -
      from that(2) have "p \<in> set (gs ! n)" by (cases "gs ! n") auto
      with grouped_nth[OF that(1)] V show ?thesis by auto
    qed
    have c1: "visited \<union> set ?g = grouped (gs @ [?g])" using V by simp
    have c2: "length ?res' = length res0" using len by simp
    have c3: "\<exists>a'. a' \<in> set cands \<and> a' \<notin> grouped (take n (gs @ [?g]))
             \<and> admitted ratio keys threshold a' (grouped (take n (gs @ [?g]))) cands \<noteq> []
             \<and> (gs @ [?g]) ! n = a' # admitted ratio keys threshold a' (grouped (take n (gs @ [?g]))) cands"
      if "n < length (gs @ [?g])" for n
    proof (cases "n < length gs")
      case True
      with G show ?thesis by (simp add: nth_append)
    next
      case False
      with that have n: "n = length gs" by simp
      show ?thesis
        unfolding n using a True V by (intro exI[of _ a]) simp
    qed
    have c4: "?res' ! p = set_score ratio keys (hd ((gs @ [?g]) ! n)) p (res0 ! p)"
      if "n < length (gs @ [?g])" "p \<in> set (tl ((gs @ [?g]) ! n))" for n p
    proof (cases "n < length gs")
      case True
      with that have p: "p \<in> set (tl (gs ! n))" by (simp add: nth_append)
      then have "p \<in> visited" using tl_in_V True by blast
      with admV have notin: "p \<notin> set ?adm" by auto
      have pb: "p < length res"
      proof -
        from G True obtain a' where "gs ! n = a' # admitted ratio keys threshold a' (grouped (take n gs)) cands"
          by blast
        with p have "p \<in> set (admitted ratio keys threshold a' (grouped (take n gs)) cands)" by simp
        then have "p \<in> set cands" by (auto simp: admitted_def)
        with bound len show ?thesis by simp
      qed
      have "?res' ! p = res ! p" using notin pb adm_d by (simp add: nth_fold_score)
      with S True p show ?thesis by (simp add: nth_append)
    next
      case False
      with that have n: "n = length gs" by simp
      with that have p: "p \<in> set ?adm" by simp
      then have pb: "p < length res" using adm_b by blast
      from p admV have "p \<notin> visited" by auto
      then have "\<forall>m < length gs. p \<notin> set (tl (gs ! m))" using tl_in_V by blast
      with F pb len have r0: "res ! p = res0 ! p" by simp
      have "?res' ! p = set_score ratio keys a p (res ! p)"
        using p pb adm_d by (simp add: nth_fold_score)
      with r0 show ?thesis unfolding n by simp
    qed
    have c5: "?res' ! p = res0 ! p"
      if "p < length res0" "\<forall>n < length (gs @ [?g]). p \<notin> set (tl ((gs @ [?g]) ! n))" for p
    proof -
      have "p \<notin> set (tl ((gs @ [?g]) ! length gs))"
        using that(2)[rule_format, of "length gs"] by simp
      then have notin: "p \<notin> set ?adm" by simp
      have "\<forall>n < length gs. p \<notin> set (tl (gs ! n))"
      proof (intro allI impI)
        fix n assume n: "n < length gs"
        have "p \<notin> set (tl ((gs @ [?g]) ! n))"
          using that(2)[rule_format, of n] n by simp
        with n show "p \<notin> set (tl (gs ! n))" by (simp add: nth_append)
      qed
      with F that(1) have "res ! p = res0 ! p" by simp
      moreover have "?res' ! p = res ! p"
        using notin that(1) len adm_d by (simp add: nth_fold_score)
      ultimately show ?thesis by simp
    qed
    show ?thesis
      unfolding eq fuzzy_inv_def prod.case
      using c1 c2 c3 c4 c5 by blast
  qed
qed

lemma fuzzy_inv_fold:
  assumes "fuzzy_inv ratio keys threshold cands res0 st"
    and "set seeds \<subseteq> set cands"
    and "distinct cands"
    and "\<forall>c \<in> set cands. c < length res0"
  shows "fuzzy_inv ratio keys threshold cands res0
           (fold (seed_step ratio keys threshold (map (\<lambda>j. (j, j)) cands)) (map (\<lambda>j. (j, j)) seeds) st)"
  using assms
proof (induction seeds arbitrary: st)
  case Nil then show ?case by simp
next
  case (Cons a seeds)
  have "fuzzy_inv ratio keys threshold cands res0
           (seed_step ratio keys threshold (map (\<lambda>j. (j, j)) cands) (a, a) st)"
    using Cons.prems by (intro fuzzy_inv_step) auto
  then show ?case using Cons.prems by (simp add: Cons.IH)
qed

lemma fuzzy_inv_init: "fuzzy_inv ratio keys threshold cands res0 ({}, [], res0)"
  by (simp add: fuzzy_inv_def)

lemma fuzzy_groups_subset:
  assumes "\<forall>n < length gs. \<exists>a. a \<in> set cands \<and> a \<notin> grouped (take n gs)
        \<and> admitted ratio keys threshold a (grouped (take n gs)) cands \<noteq> []
        \<and> gs ! n = a # admitted ratio keys threshold a (grouped (take n gs)) cands"
  shows "grouped gs \<subseteq> set cands"
proof
  fix p assume "p \<in> grouped gs"
  then obtain x where "x \<in> set gs" "p \<in> set x" by (auto simp: grouped_def)
  then obtain n where n: "n < length gs" "gs ! n = x" by (auto simp: in_set_conv_nth)
  with assms obtain a where "a \<in> set cands"
    "x = a # admitted ratio keys threshold a (grouped (take n gs)) cands" by auto
  with \<open>p \<in> set x\<close> show "p \<in> set cands" by (auto simp: admitted_def)
qed

subsection \<open>The loop over the groups\<close>

lemma mark_fuzzy_fields:
  "dup_group_id (mark_fuzzy gid n r) = Some gid"
  "is_duplicate (mark_fuzzy gid n r)"
  "dup_count (mark_fuzzy gid n r) = n"
  "match_type (mark_fuzzy gid n r) = ''Fuzzy''"
  "similarity_score (mark_fuzzy gid n r) = (if similarity_score r = 0 then 1 else similarity_score r)"
  by (simp_all add: mark_fuzzy_def Let_def)

lemma mark_fuzzy_index: "r_index (mark_fuzzy gid n r) = r_index r"
  by (simp add: mark_fuzzy_def Let_def)


lemma finalize_step_eq:
  "finalize_step grp (g, res)
     = (g + 1, fold (\<lambda>idx r. r[idx := mark_fuzzy (fuzzy_gid (g + 1)) (length grp) (r ! idx)]) grp res)"
  by (simp add: finalize_step_def fuzzy_gid_def Let_def)

lemma finalize_fold_fst: "fst (fold finalize_step gs (g, res)) = g + length gs"
  by (induction gs arbitrary: g res) (auto simp: finalize_step_eq)

lemma finalize_fold_length: "length (snd (fold finalize_step gs (g, res))) = length res"
  by (induction gs arbitrary: g res) (auto simp: finalize_step_eq)

lemma finalize_fold_nth:
  assumes "\<forall>n < length gs. distinct (gs ! n)"
    and "\<forall>n < length gs. \<forall>m < n. set (gs ! n) \<inter> set (gs ! m) = {}"
    and "p < length res"
  shows "(\<forall>n < length gs. p \<in> set (gs ! n) \<longrightarrow>
            snd (fold finalize_step gs (g, res)) ! p
              = mark_fuzzy (fuzzy_gid (g + n + 1)) (length (gs ! n)) (res ! p))
       \<and> (p \<notin> grouped gs \<longrightarrow> snd (fold finalize_step gs (g, res)) ! p = res ! p)"
  using assms
proof (induction gs arbitrary: g res)
  case Nil
  then show ?case by simp
next
  case (Cons g1 gs)
  let ?res1 = "fold (\<lambda>idx r. r[idx := mark_fuzzy (fuzzy_gid (g + 1)) (length g1) (r ! idx)]) g1 res"
  have fold_eq: "fold finalize_step (g1 # gs) (g, res) = fold finalize_step gs (g + 1, ?res1)"
    by (simp add: finalize_step_eq)
  have d1: "distinct g1" using Cons.prems(1) by auto
  have dtl: "\<forall>n < length gs. distinct (gs ! n)" using Cons.prems(1) by auto
  have disj_tl: "\<forall>n < length gs. \<forall>m < n. set (gs ! n) \<inter> set (gs ! m) = {}"
  proof (intro allI impI)
    fix n m assume "n < length gs" "m < n"
    then show "set (gs ! n) \<inter> set (gs ! m) = {}"
      using Cons.prems(2)[rule_format, of "Suc n" "Suc m"] by simp
  qed
  have disj_hd: "set (gs ! n) \<inter> set g1 = {}" if "n < length gs" for n
    using Cons.prems(2)[rule_format, of "Suc n" 0] that by simp
  have p1: "p < length ?res1" using Cons.prems(3) by simp
  have res1: "?res1 ! p = (if p \<in> set g1 then mark_fuzzy (fuzzy_gid (g + 1)) (length g1) (res ! p) else res ! p)"
    using d1 Cons.prems(3) by (rule nth_fold_update)
  note IH = Cons.IH[OF dtl disj_tl p1, of "g + 1"]
  have A: "snd (fold finalize_step (g1 # gs) (g, res)) ! p
              = mark_fuzzy (fuzzy_gid (g + n + 1)) (length ((g1 # gs) ! n)) (res ! p)"
    if "n < length (g1 # gs)" "p \<in> set ((g1 # gs) ! n)" for n
  proof (cases n)
    case 0
    with that have pg: "p \<in> set g1" by simp
    have "p \<notin> grouped gs"
    proof
      assume "p \<in> grouped gs"
      then obtain x where "x \<in> set gs" "p \<in> set x" by (auto simp: grouped_def)
      then obtain k where "k < length gs" "gs ! k = x" by (auto simp: in_set_conv_nth)
      with disj_hd[of k] pg \<open>p \<in> set x\<close> show False by auto
    qed
    with IH have "snd (fold finalize_step gs (g + 1, ?res1)) ! p = ?res1 ! p" by simp
    with res1 pg 0 show ?thesis unfolding fold_eq by simp
  next
    case (Suc k)
    with that have k: "k < length gs" "p \<in> set (gs ! k)" by auto
    with disj_hd[of k] have "p \<notin> set g1" by auto
    with res1 have "?res1 ! p = res ! p" by simp
    moreover from IH k have "snd (fold finalize_step gs (g + 1, ?res1)) ! p
        = mark_fuzzy (fuzzy_gid (g + 1 + k + 1)) (length (gs ! k)) (?res1 ! p)" by simp
    ultimately show ?thesis unfolding fold_eq Suc by simp
  qed
  have B: "snd (fold finalize_step (g1 # gs) (g, res)) ! p = res ! p" if "p \<notin> grouped (g1 # gs)"
  proof -
    from that have "p \<notin> set g1" "p \<notin> grouped gs" by (auto simp: grouped_def)
    with IH res1 show ?thesis unfolding fold_eq by simp
  qed
  from A B show ?case by blast
qed

subsection \<open>The phase as a whole\<close>

lemma fuzzy_phase_eq:
  "fuzzy_phase ratio keys threshold (g, result)
     = (let cands = unassigned_rows result (length keys);
            st = fold (seed_step ratio keys threshold (map (\<lambda>j. (j, j)) cands))
                      (map (\<lambda>j. (j, j)) cands) ({}, [], result);
            fin = fold finalize_step (fst (snd st)) (g, snd (snd st))
        in (fst (snd st), fst fin, snd fin))"
  unfolding fuzzy_phase_def Let_def unassigned_eq
  by (simp add: case_prod_unfold)

lemma fuzzy_phase_spec:
  assumes len: "length result = length keys"
  shows "\<exists>gs res.
    fuzzy_phase ratio keys threshold (g, result) = (gs, g + length gs, res) \<and>
    length res = length result \<and>
    (\<forall>n < length gs. \<exists>a. a \<in> set (unassigned_rows result (length keys)) \<and> a \<notin> grouped (take n gs)
        \<and> admitted ratio keys threshold a (grouped (take n gs)) (unassigned_rows result (length keys)) \<noteq> []
        \<and> gs ! n = a # admitted ratio keys threshold a (grouped (take n gs))
                         (unassigned_rows result (length keys))) \<and>
    (\<forall>n < length gs. \<forall>p \<in> set (gs ! n).
        res ! p = mark_fuzzy (fuzzy_gid (g + n + 1)) (length (gs ! n))
                    (if p = hd (gs ! n) then result ! p
                     else set_score ratio keys (hd (gs ! n)) p (result ! p))) \<and>
    (\<forall>p < length result. p \<notin> grouped gs \<longrightarrow> res ! p = result ! p)"
proof -
  let ?cands = "unassigned_rows result (length keys)"
  let ?st = "fold (seed_step ratio keys threshold (map (\<lambda>j. (j, j)) ?cands))
                      (map (\<lambda>j. (j, j)) ?cands) ({}, [], result)"
  obtain visited gs res1 where st: "?st = (visited, gs, res1)" by (cases ?st)
  let ?fin = "fold finalize_step gs (g, res1)"
  have dc: "distinct ?cands" by (rule unassigned_rows_props)
  have bc: "\<forall>c \<in> set ?cands. c < length result"
    using len by (simp add: unassigned_rows_props)
  have "fuzzy_inv ratio keys threshold ?cands result ?st"
    using dc bc by (intro fuzzy_inv_fold fuzzy_inv_init) auto
  then have V: "visited = grouped gs" and len1: "length res1 = length result"
    and G: "\<forall>n < length gs. \<exists>a. a \<in> set ?cands \<and> a \<notin> grouped (take n gs)
             \<and> admitted ratio keys threshold a (grouped (take n gs)) ?cands \<noteq> []
             \<and> gs ! n = a # admitted ratio keys threshold a (grouped (take n gs)) ?cands"
    and S: "\<forall>n < length gs. \<forall>p \<in> set (tl (gs ! n)).
             res1 ! p = set_score ratio keys (hd (gs ! n)) p (result ! p)"
    and F: "\<forall>p < length result. (\<forall>n < length gs. p \<notin> set (tl (gs ! n))) \<longrightarrow> res1 ! p = result ! p"
    unfolding st by (auto simp: fuzzy_inv_def)
  have grp: "distinct (gs ! n) \<and> set (gs ! n) \<subseteq> set ?cands \<and> set (gs ! n) \<inter> grouped (take n gs) = {}"
    if "n < length gs" for n
  proof -
    from G that obtain a where a: "a \<in> set ?cands" "a \<notin> grouped (take n gs)"
      "gs ! n = a # admitted ratio keys threshold a (grouped (take n gs)) ?cands" by blast
    show ?thesis
      unfolding a(3) using a(1,2) dc by (auto simp: admitted_def)
  qed
  have earlier: "set (gs ! m) \<subseteq> grouped (take n gs)" if "m < n" "n < length gs" for m n
    using grouped_nth[of m "take n gs"] that by simp
  have dist: "\<forall>n < length gs. distinct (gs ! n)" using grp by blast
  have disj: "\<forall>n < length gs. \<forall>m < n. set (gs ! n) \<inter> set (gs ! m) = {}"
    using grp earlier by blast
  have bound: "p < length result" if "n < length gs" "p \<in> set (gs ! n)" for n p
    using grp[OF that(1)] that(2) bc by blast
  have seed_untouched: "res1 ! p = result ! p" if n: "n < length gs" and p: "p = hd (gs ! n)" for n p
  proof -
    from G n obtain a where a: "gs ! n = a # admitted ratio keys threshold a (grouped (take n gs)) ?cands"
      by blast
    with p have pa: "p = a" by simp
    have pin: "p \<in> set (gs ! n)" using a pa by simp
    have "p \<notin> set (tl (gs ! m))" if m: "m < length gs" for m
    proof
      assume pm: "p \<in> set (tl (gs ! m))"
      then have pm': "p \<in> set (gs ! m)" by (cases "gs ! m") auto
      consider "m < n" | "m = n" | "n < m" by linarith
      then show False
      proof cases
        case 1
        with disj n pin pm' show False by blast
      next
        case 2
        with pm a pa show False by (auto simp: admitted_def)
      next
        case 3
        with disj m pin pm' show False by blast
      qed
    qed
    with F bound[OF n pin] show ?thesis by blast
  qed
  have fin_nth: "(\<forall>n < length gs. p \<in> set (gs ! n) \<longrightarrow>
            snd ?fin ! p = mark_fuzzy (fuzzy_gid (g + n + 1)) (length (gs ! n)) (res1 ! p))
       \<and> (p \<notin> grouped gs \<longrightarrow> snd ?fin ! p = res1 ! p)" if "p < length result" for p
    using finalize_fold_nth[OF dist disj, of p res1 g] that len1 by simp
  have eq: "fuzzy_phase ratio keys threshold (g, result) = (gs, g + length gs, snd ?fin)"
    unfolding fuzzy_phase_eq Let_def st by (simp add: finalize_fold_fst)
  have c_len: "length (snd ?fin) = length result"
    by (simp add: finalize_fold_length len1)
  have c_members: "snd ?fin ! p = mark_fuzzy (fuzzy_gid (g + n + 1)) (length (gs ! n))
                    (if p = hd (gs ! n) then result ! p
                     else set_score ratio keys (hd (gs ! n)) p (result ! p))"
    if n: "n < length gs" and p: "p \<in> set (gs ! n)" for n p
  proof -
    have pb: "p < length result" using bound[OF n p] .
    have m: "snd ?fin ! p = mark_fuzzy (fuzzy_gid (g + n + 1)) (length (gs ! n)) (res1 ! p)"
      using fin_nth[OF pb] n p by blast
    show ?thesis
    proof (cases "p = hd (gs ! n)")
      case True
      with seed_untouched[OF n] m show ?thesis by simp
    next
      case False
      with p have "p \<in> set (tl (gs ! n))" by (cases "gs ! n") auto
      with S n have "res1 ! p = set_score ratio keys (hd (gs ! n)) p (result ! p)" by blast
      with m False show ?thesis by simp
    qed
  qed
  have c_frame: "snd ?fin ! p = result ! p" if pb: "p < length result" and pn: "p \<notin> grouped gs" for p
  proof -
    have "\<forall>n < length gs. p \<notin> set (tl (gs ! n))"
    proof (intro allI impI notI)
      fix n assume n: "n < length gs" and "p \<in> set (tl (gs ! n))"
      then have "p \<in> set (gs ! n)" by (cases "gs ! n") auto
      with grouped_nth[OF n] pn show False by blast
    qed
    with F pb have "res1 ! p = result ! p" by blast
    with fin_nth[OF pb] pn show ?thesis by simp
  qed
  show ?thesis
    using eq c_len G c_members c_frame by blast
qed


section \<open>Runs of detect\_duplicates\<close>

lemma detect_duplicates_eq:
  assumes "those (map (\<lambda>c. index_of c (col_names df)) match_columns) = Some ks"
    and "distinct match_columns"
  shows "detect_duplicates ts_str ratio df match_columns fuzzy threshold =
     (let keys = match_keys ts_str df ks;
          ex = exact_phase keys (init_rows df);
          fz = fuzzy_phase ratio keys threshold ex;
          result2 = (if fuzzy \<and> length match_columns = 1 then snd (snd fz) else snd ex)
      in Inr (\<lparr> dup_columns = df_columns df,
                dup_rows = map (\<lambda>p. (result2 ! p)\<lparr>recency_rank := recency_rank_of (df_columns df) result2 p\<rparr>)
                               [0..<length result2] \<rparr>,
              if fuzzy \<and> length match_columns = 1 then Some (fst fz) else None))"
  using assms
  by (simp add: detect_duplicates_def match_keys_def Let_def case_prod_unfold)

lemma detect_duplicates_Inr:
  assumes "detect_duplicates ts_str ratio df match_columns fuzzy threshold = Inr out"
  shows "\<exists>ks. those (map (\<lambda>c. index_of c (col_names df)) match_columns) = Some ks
           \<and> distinct match_columns"
  using assms by (auto simp: detect_duplicates_def split: option.splits if_splits)

text \<open>The frame after both phases, before the recency rank is added.\<close>

lemma detect_rows:
  assumes det: "detect_duplicates ts_str ratio df match_columns fuzzy threshold = Inr (frame, groups)"
    and ks: "those (map (\<lambda>c. index_of c (col_names df)) match_columns) = Some ks"
  shows "\<exists>result2.
      length result2 = length (df_rows df)
    \<and> dup_columns frame = df_columns df
    \<and> dup_rows frame = map (\<lambda>p. (result2 ! p)\<lparr>recency_rank := recency_rank_of (df_columns df) result2 p\<rparr>)
                            [0..<length result2]
    \<and> (if fuzzy \<and> length match_columns = 1
        then \<exists>gs. groups = Some gs
              \<and> fuzzy_phase ratio (match_keys ts_str df ks) threshold
                    (exact_phase (match_keys ts_str df ks) (init_rows df))
                  = (gs, length (dup_keys_of (match_keys ts_str df ks)) + length gs, result2)
        else groups = None \<and> result2 = snd (exact_phase (match_keys ts_str df ks) (init_rows df)))"
proof -
  let ?keys = "match_keys ts_str df ks"
  let ?ex = "exact_phase ?keys (init_rows df)"
  from detect_duplicates_Inr[OF det] ks have d: "distinct match_columns" by auto
  note eq = detect_duplicates_eq[OF ks d, of ts_str ratio fuzzy threshold]
  have lenex: "length (snd ?ex) = length ?keys"
    by (simp add: exact_phase_length match_keys_def)
  have exeq: "?ex = (length (dup_keys_of ?keys), snd ?ex)"
    using exact_phase_fst[of ?keys "init_rows df"] by (cases ?ex) simp
  show ?thesis
  proof (cases "fuzzy \<and> length match_columns = 1")
    case False
    with det eq have "frame = \<lparr> dup_columns = df_columns df,
        dup_rows = map (\<lambda>p. (snd ?ex ! p)\<lparr>recency_rank := recency_rank_of (df_columns df) (snd ?ex) p\<rparr>)
                        [0..<length (snd ?ex)] \<rparr>" and "groups = None"
      by (auto simp: Let_def)
    with False lenex show ?thesis
      by (intro exI[of _ "snd ?ex"]) (simp add: match_keys_def)
  next
    case True
    from fuzzy_phase_spec[OF lenex, of ratio threshold "length (dup_keys_of ?keys)"]
    obtain gs res where fz: "fuzzy_phase ratio ?keys threshold (length (dup_keys_of ?keys), snd ?ex)
          = (gs, length (dup_keys_of ?keys) + length gs, res)"
      and lr: "length res = length (snd ?ex)" by blast
    from fz exeq have fz': "fuzzy_phase ratio ?keys threshold ?ex
          = (gs, length (dup_keys_of ?keys) + length gs, res)" by simp
    with det eq True have "frame = \<lparr> dup_columns = df_columns df,
        dup_rows = map (\<lambda>p. (res ! p)\<lparr>recency_rank := recency_rank_of (df_columns df) res p\<rparr>)
                        [0..<length res] \<rparr>" and "groups = Some gs"
      by (auto simp: Let_def)
    with True lenex lr fz' show ?thesis
      by (intro exI[of _ res]) (simp add: match_keys_def)
  qed
qed

lemma exact_rows_after_phases:
  assumes det: "detect_duplicates ts_str ratio df match_columns fuzzy threshold = Inr (frame, groups)"
    and ks: "those (map (\<lambda>c. index_of c (col_names df)) match_columns) = Some ks"
    and p: "p < length (df_rows df)"
    and n: "index_of (match_keys ts_str df ks ! p) (dup_keys_of (match_keys ts_str df ks)) = Some n"
  shows "dup_rows frame ! p
     = (mark_exact (''DG-'' @ fmt_04d (n + 1))
          (count_list (match_keys ts_str df ks) (match_keys ts_str df ks ! p)) (init_rows df ! p))
       \<lparr>recency_rank := recency_rank (dup_rows frame ! p)\<rparr>"
proof -
  let ?keys = "match_keys ts_str df ks"
  let ?ex = "exact_phase ?keys (init_rows df)"
  have lk: "length ?keys = length (df_rows df)" by (simp add: match_keys_def)
  have exp: "snd ?ex ! p = mark_exact (''DG-'' @ fmt_04d (n + 1)) (count_list ?keys (?keys ! p)) (init_rows df ! p)"
    using exact_phase_nth[of p "init_rows df" ?keys] p n lk by simp
  from detect_rows[OF det ks] obtain result2 where
    l2: "length result2 = length (df_rows df)"
    and rows: "dup_rows frame = map (\<lambda>p. (result2 ! p)\<lparr>recency_rank := recency_rank_of (df_columns df) result2 p\<rparr>)
                            [0..<length result2]"
    and br: "if fuzzy \<and> length match_columns = 1
        then \<exists>gs. groups = Some gs
              \<and> fuzzy_phase ratio ?keys threshold ?ex
                  = (gs, length (dup_keys_of ?keys) + length gs, result2)
        else groups = None \<and> result2 = snd ?ex"
    by blast
  have r2: "result2 ! p = snd ?ex ! p"
  proof (cases "fuzzy \<and> length match_columns = 1")
    case False
    with br show ?thesis by simp
  next
    case True
    with br obtain gs where fz: "fuzzy_phase ratio ?keys threshold ?ex
                  = (gs, length (dup_keys_of ?keys) + length gs, result2)" by auto
    have lenex: "length (snd ?ex) = length ?keys"
      by (simp add: exact_phase_length match_keys_def)
    have exeq: "?ex = (length (dup_keys_of ?keys), snd ?ex)"
      using exact_phase_fst[of ?keys "init_rows df"] by (cases ?ex) simp
    from fuzzy_phase_spec[OF lenex, of ratio threshold "length (dup_keys_of ?keys)"] fz exeq
    have G: "\<forall>n < length gs. \<exists>a. a \<in> set (unassigned_rows (snd ?ex) (length ?keys)) \<and> a \<notin> grouped (take n gs)
        \<and> admitted ratio ?keys threshold a (grouped (take n gs)) (unassigned_rows (snd ?ex) (length ?keys)) \<noteq> []
        \<and> gs ! n = a # admitted ratio ?keys threshold a (grouped (take n gs))
                         (unassigned_rows (snd ?ex) (length ?keys))"
      and F: "\<forall>p < length (snd ?ex). p \<notin> grouped gs \<longrightarrow> result2 ! p = snd ?ex ! p"
      by auto
    have "is_duplicate (snd ?ex ! p)" using exp by (simp add: mark_exact_def)
    then have "p \<notin> set (unassigned_rows (snd ?ex) (length ?keys))"
      by (simp add: unassigned_rows_props)
    with fuzzy_groups_subset[OF G] have "p \<notin> grouped gs" by blast
    with F p lenex lk show ?thesis by simp
  qed
  have "dup_rows frame ! p = (result2 ! p)\<lparr>recency_rank := recency_rank_of (df_columns df) result2 p\<rparr>"
    using rows p l2 by simp
  then show ?thesis using r2 exp by simp
qed

lemma recency_rank_without_group:
  "dup_group_id (result ! p) = None \<Longrightarrow>
   recency_rank_of cols result p = (if date_cols cols = [] then None else Some 0)"
  by (cases "date_cols cols")
     (simp_all add: recency_rank_of_def cumcount_desc_def group_rank_def fillna_int_def)

lemma detect_frame_rows:
  assumes det: "detect_duplicates ts_str ratio df match_columns fuzzy threshold = Inr (frame, groups)"
    and p: "p < length (df_rows df)"
  shows "length (dup_rows frame) = length (df_rows df)"
    and "r_index (dup_rows frame ! p) = p"
    and "is_duplicate (dup_rows frame ! p) \<longleftrightarrow> dup_group_id (dup_rows frame ! p) \<noteq> None"
    and "dup_group_id (dup_rows frame ! p) = None \<Longrightarrow>
           recency_rank (dup_rows frame ! p) = (if date_cols (df_columns df) = [] then None else Some 0)"
proof -
  from detect_duplicates_Inr[OF det] obtain ks where
    ks: "those (map (\<lambda>c. index_of c (col_names df)) match_columns) = Some ks" by blast
  let ?keys = "match_keys ts_str df ks"
  let ?ex = "exact_phase ?keys (init_rows df)"
  have lk: "length ?keys = length (df_rows df)" by (simp add: match_keys_def)
  have lenex: "length (snd ?ex) = length ?keys"
    by (simp add: exact_phase_length match_keys_def)
  have exeq: "?ex = (length (dup_keys_of ?keys), snd ?ex)"
    using exact_phase_fst[of ?keys "init_rows df"] by (cases ?ex) simp
  have exp: "r_index (snd ?ex ! p) = p \<and> (is_duplicate (snd ?ex ! p) \<longleftrightarrow> dup_group_id (snd ?ex ! p) \<noteq> None)"
    using exact_phase_nth[of p "init_rows df" ?keys] p lk
    by (auto simp: nth_init_rows mark_exact_def split: option.splits)
  from detect_rows[OF det ks] obtain result2 where
    l2: "length result2 = length (df_rows df)"
    and rows: "dup_rows frame = map (\<lambda>p. (result2 ! p)\<lparr>recency_rank := recency_rank_of (df_columns df) result2 p\<rparr>)
                            [0..<length result2]"
    and br: "if fuzzy \<and> length match_columns = 1
        then \<exists>gs. groups = Some gs
              \<and> fuzzy_phase ratio ?keys threshold ?ex
                  = (gs, length (dup_keys_of ?keys) + length gs, result2)
        else groups = None \<and> result2 = snd ?ex"
    by blast
  have r2: "r_index (result2 ! p) = p \<and> (is_duplicate (result2 ! p) \<longleftrightarrow> dup_group_id (result2 ! p) \<noteq> None)"
  proof (cases "fuzzy \<and> length match_columns = 1")
    case False
    with br exp show ?thesis by simp
  next
    case True
    with br obtain gs where fz: "fuzzy_phase ratio ?keys threshold ?ex
                  = (gs, length (dup_keys_of ?keys) + length gs, result2)" by auto
    from fuzzy_phase_spec[OF lenex, of ratio threshold "length (dup_keys_of ?keys)"] fz exeq
    have M: "\<forall>n < length gs. \<forall>p \<in> set (gs ! n).
        result2 ! p = mark_fuzzy (fuzzy_gid (length (dup_keys_of ?keys) + n + 1)) (length (gs ! n))
                    (if p = hd (gs ! n) then snd ?ex ! p
                     else set_score ratio ?keys (hd (gs ! n)) p (snd ?ex ! p))"
      and F: "\<forall>p < length (snd ?ex). p \<notin> grouped gs \<longrightarrow> result2 ! p = snd ?ex ! p"
      by auto
    show ?thesis
    proof (cases "p \<in> grouped gs")
      case False
      with F p lenex lk exp show ?thesis by simp
    next
      case True
      then obtain x where "x \<in> set gs" "p \<in> set x" by (auto simp: grouped_def)
      then obtain n where "n < length gs" "p \<in> set (gs ! n)" by (auto simp: in_set_conv_nth)
      with M have "result2 ! p = mark_fuzzy (fuzzy_gid (length (dup_keys_of ?keys) + n + 1)) (length (gs ! n))
                    (if p = hd (gs ! n) then snd ?ex ! p
                     else set_score ratio ?keys (hd (gs ! n)) p (snd ?ex ! p))" by blast
      moreover have "r_index (if p = hd (gs ! n) then snd ?ex ! p
                     else set_score ratio ?keys (hd (gs ! n)) p (snd ?ex ! p)) = p"
        using exp by (cases "p = hd (gs ! n)") (simp_all add: set_score_def)
      ultimately show ?thesis by (simp add: mark_fuzzy_fields mark_fuzzy_index)
    qed
  qed
  have row: "dup_rows frame ! p = (result2 ! p)\<lparr>recency_rank := recency_rank_of (df_columns df) result2 p\<rparr>"
    using rows p l2 by simp
  show "length (dup_rows frame) = length (df_rows df)" using rows l2 by simp
  show "r_index (dup_rows frame ! p) = p" using row r2 by simp
  show "is_duplicate (dup_rows frame ! p) \<longleftrightarrow> dup_group_id (dup_rows frame ! p) \<noteq> None"
    using row r2 by simp
  show "recency_rank (dup_rows frame ! p) = (if date_cols (df_columns df) = [] then None else Some 0)"
    if "dup_group_id (dup_rows frame ! p) = None"
  proof -
    from that row have "dup_group_id (result2 ! p) = None" by simp
    from recency_rank_without_group[OF this] row show ?thesis by simp
  qed
qed

subsection \<open>Group ids of the exact phase\<close>

text \<open>
  C4, as the code has it. In a run of \<^verbatim>\<open>detect_duplicates\<close> that returns, the
  match keys that occur in more than one row are numbered in the order of
  \<^verbatim>\<open>value_counts\<close>, the key with more rows first, and the rows of the
  \<open>n\<close>-th of them (counting from 0) get the exact-match group id \<^verbatim>\<open>DG-\<close>
  followed by \<open>n + 1\<close> on four digits, whether or not the fuzzy phase runs.
\<close>

theorem exact_group_ids_by_frequency:
  assumes "detect_duplicates ts_str ratio df match_columns fuzzy threshold = Inr (frame, groups)"
    and "those (map (\<lambda>c. index_of c (col_names df)) match_columns) = Some ks"
  shows "distinct (dup_keys_of (match_keys ts_str df ks))
    \<and> set (dup_keys_of (match_keys ts_str df ks))
        = {k \<in> set (match_keys ts_str df ks). 1 < count_list (match_keys ts_str df ks) k}
    \<and> sorted_wrt (\<lambda>a b. count_list (match_keys ts_str df ks) b \<le> count_list (match_keys ts_str df ks) a)
        (dup_keys_of (match_keys ts_str df ks))
    \<and> (\<forall>p < length (df_rows df). \<forall>n.
          index_of (match_keys ts_str df ks ! p) (dup_keys_of (match_keys ts_str df ks)) = Some n
          \<longrightarrow> dup_group_id (dup_rows frame ! p) = Some (''DG-'' @ fmt_04d (n + 1))
            \<and> match_type (dup_rows frame ! p) = ''Exact'')"
proof -
  have "dup_group_id (dup_rows frame ! p) = Some (''DG-'' @ fmt_04d (n + 1))
            \<and> match_type (dup_rows frame ! p) = ''Exact''"
    if "p < length (df_rows df)"
      "index_of (match_keys ts_str df ks ! p) (dup_keys_of (match_keys ts_str df ks)) = Some n" for p n
    by (subst (1 2) exact_rows_after_phases[OF assms that]) (simp add: mark_exact_def)
  then show ?thesis
    using distinct_dup_keys_of set_dup_keys_of sorted_dup_keys_of by blast
qed

theorem exact_group_ids_witness:
  "\<exists>frame groups.
      detect_duplicates no_ts no_ratio example_names [''name''] False (85 / 100) = Inr (frame, groups)
    \<and> dup_group_id (dup_rows frame ! 2) = Some ''DG-0001''
    \<and> dup_group_id (dup_rows frame ! 0) = Some ''DG-0002''"
proof -
  obtain frame groups where
    run: "detect_duplicates no_ts no_ratio example_names [''name''] False (85 / 100) = Inr (frame, groups)"
  proof -
    have "case detect_duplicates no_ts no_ratio example_names [''name''] False (85 / 100) of
            Inl e \<Rightarrow> False | Inr out \<Rightarrow> True"
      by code_simp
    then show ?thesis using that
      by (cases "detect_duplicates no_ts no_ratio example_names [''name''] False (85 / 100)") auto
  qed
  have ks: "those (map (\<lambda>c. index_of c (col_names example_names)) [''name'']) = Some [0]"
    by code_simp
  have i2: "index_of (match_keys no_ts example_names [0] ! 2) (dup_keys_of (match_keys no_ts example_names [0])) = Some 0"
    by code_simp
  have i0: "index_of (match_keys no_ts example_names [0] ! 0) (dup_keys_of (match_keys no_ts example_names [0])) = Some 1"
    by code_simp
  have len: "2 < length (df_rows example_names)" "0 < length (df_rows example_names)"
    by (simp_all add: example_names_def)
  have f1: "fmt_04d (0 + 1) = ''0001''" and f2: "fmt_04d (1 + 1) = ''0002''"
    by code_simp+
  from exact_group_ids_by_frequency[OF run ks] len i2 i0
  have "dup_group_id (dup_rows frame ! 2) = Some (''DG-'' @ fmt_04d (0 + 1))"
    and "dup_group_id (dup_rows frame ! 0) = Some (''DG-'' @ fmt_04d (1 + 1))"
    by blast+
  with run f1 f2 show ?thesis by simp
qed

text \<open>
  C4, as the claim states it, fails: in the frame with the names a, a, b, b, b,
  c the key a is met first, at row 0, and the key b at row 2; yet the rows of b
  get \<^verbatim>\<open>DG-0001\<close> and the rows of a get \<^verbatim>\<open>DG-0002\<close>.
\<close>

theorem first_encounter_order_counterexample:
  "run_group_ids (detect_duplicates no_ts no_ratio example_names [''name''] False (85 / 100))
     = [Some ''DG-0002'', Some ''DG-0002'', Some ''DG-0001'', Some ''DG-0001'', Some ''DG-0001'', None]"
  by code_simp

subsection \<open>Groups of the fuzzy phase\<close>



subsection \<open>Match keys of missing values\<close>

lemma normalize_cell_Str: "normalize_cell ts_str (Str s) = Str (py_lower (py_strip s))"
  by (simp add: normalize_cell_def)

lemma normalize_cell_Null: "normalize_cell ts_str Null = Str ''nan''"
proof -
  have "py_lower (py_strip ''nan'') = ''nan''" by code_simp
  then show ?thesis by (simp add: normalize_cell_def)
qed

text \<open>
  C5 at a failing input. In the frame with the emails null, null and " NaN",
  the key of a null row is the text \<^verbatim>\<open>nan\<close>, not the empty text:
  \<^verbatim>\<open>astype(str)\<close> has already turned the missing value into text when
  \<^verbatim>\<open>fillna("")\<close> runs. The row with the text " NaN" gets the same key and lands
  in the group of the two null rows.
\<close>

theorem null_match_key_is_nan:
  "match_keys no_ts example_emails [0] = [''nan'', ''nan'', ''nan'']
   \<and> run_group_ids (detect_duplicates no_ts no_ratio example_emails [''email''] False (85 / 100))
       = [Some ''DG-0001'', Some ''DG-0001'', Some ''DG-0001'']"
  by code_simp

subsection \<open>Recency rank of rows in no group\<close>

text \<open>
  C7 at a failing input. The frame with the names a, a, b, b, b, c has no
  datetime column; the row of c is in no group and its recency rank is missing
  (NaN), not 0. With a datetime column the rank of a row in no group is 0.
\<close>

theorem recency_rank_of_ungrouped_row:
  "run_group_ids (detect_duplicates no_ts no_ratio example_names [''name''] False (85 / 100)) ! 5 = None
   \<and> run_recency_ranks (detect_duplicates no_ts no_ratio example_names [''name''] False (85 / 100))
       = [Some 2, Some 1, Some 3, Some 2, Some 1, None]
   \<and> run_recency_ranks (detect_duplicates no_ts no_ratio example_dated [''name''] False (85 / 100))
       = [Some 2, Some 1, Some 0]"
  by code_simp


section \<open>Golden records\<close>

lemma arg_best_mem: "arg_best better xs = Some x \<Longrightarrow> x \<in> set xs"
  by (induction xs arbitrary: x) (auto split: option.splits if_splits)

lemma int_idx_Inr:
  assumes "int_idx (arg_best better xs) = Inr i"
  shows "\<exists>x \<in> set xs. i = int (fst x)"
proof -
  from assms obtain a b where ab: "arg_best better xs = Some (a, b)" and i: "i = int a"
    by (auto simp: int_idx_def split: option.splits)
  from arg_best_mem[OF ab] have "(a, b) \<in> set xs" .
  with i show ?thesis by (intro bexI[of _ "(a, b)"]) simp_all
qed

lemma present_mem: "(a, b) \<in> set (present xs) \<Longrightarrow> (a, Some b) \<in> set xs"
  by (auto simp: present_def split: option.splits)

lemma present_label:
  assumes "\<exists>x \<in> set (present xs). i = int (fst x)"
  shows "\<exists>x \<in> set xs. i = int (fst x)"
proof -
  from assms obtain a b where "(a, b) \<in> set (present xs)" and i: "i = int a" by auto
  then have "(a, Some b) \<in> set xs" by (simp add: present_mem)
  with i show ?thesis by (intro bexI[of _ "(a, Some b)"]) simp_all
qed

lemma idxmax_Inr: "idxmax xs = Inr i \<Longrightarrow> \<exists>x \<in> set xs. i = int (fst x)"
  unfolding idxmax_def by (rule present_label, rule int_idx_Inr)

lemma idxmin_Inr: "idxmin xs = Inr i \<Longrightarrow> \<exists>x \<in> set xs. i = int (fst x)"
  unfolding idxmin_def by (rule present_label, rule int_idx_Inr)

lemma idxmin_cells_Inr:
  assumes "idxmin_cells xs = Inr i"
  shows "\<exists>x \<in> set xs. i = int (fst x)"
proof -
  from assms obtain a b where ab: "arg_best cell_less (filter (\<lambda>(i, c). notna c) xs) = Some (a, b)"
    and i: "i = int a"
    by (auto simp: idxmin_cells_def split: if_splits option.splits)
  from arg_best_mem[OF ab] have "(a, b) \<in> set xs" by simp
  with i show ?thesis by (intro bexI[of _ "(a, b)"]) simp_all
qed

lemma identify_golden_member:
  assumes "identify_golden_record cols grp strategy = Inr i" "grp \<noteq> []"
  shows "\<exists>r \<in> set grp. i = int (r_index r)"
proof -
  have hd: "hd grp \<in> set grp" using assms(2) by simp
  have lab: "\<exists>r \<in> set grp. i = int (r_index r)"
    if "\<exists>x \<in> set (map (\<lambda>r. (r_index r, f r)) grp). i = int (fst x)" for f :: "dup_row \<Rightarrow> 'b"
    using that by auto
  from assms have
      "idxmax (map (\<lambda>r. (r_index r, Some (completeness r))) grp) = Inr i
     \<or> idxmin (map (\<lambda>r. (r_index r, map_option of_int (recency_rank r))) grp) = Inr i
     \<or> idxmax (map (\<lambda>r. (r_index r, Some (of_nat (notna_count cols (r_values r))))) grp) = Inr i
     \<or> (\<exists>k. idxmin_cells (map (\<lambda>r. (r_index r, r_values r ! k)) grp) = Inr i)
     \<or> i = int (r_index (hd grp))"
    unfolding identify_golden_record_def
    by (cases "src_cols cols") (simp_all split: if_splits, blast)
  then consider
      "idxmax (map (\<lambda>r. (r_index r, Some (completeness r))) grp) = Inr i"
    | "idxmin (map (\<lambda>r. (r_index r, map_option of_int (recency_rank r))) grp) = Inr i"
    | "idxmax (map (\<lambda>r. (r_index r, Some (of_nat (notna_count cols (r_values r))))) grp) = Inr i"
    | k where "idxmin_cells (map (\<lambda>r. (r_index r, r_values r ! k)) grp) = Inr i"
    | "i = int (r_index (hd grp))"
    by blast
  then show ?thesis
  proof cases
    case 1 from lab[OF idxmax_Inr[OF this]] show ?thesis .
  next
    case 2 from lab[OF idxmin_Inr[OF this]] show ?thesis .
  next
    case 3 from lab[OF idxmax_Inr[OF this]] show ?thesis .
  next
    case 4 from lab[OF idxmin_cells_Inr[OF this]] show ?thesis .
  next
    case 5 with hd show ?thesis by blast
  qed
qed

lemma identify_golden_sentinel:
  "identify_golden_record cols grp strategy = Inr (- 1) \<Longrightarrow> grp = []"
  using identify_golden_member[of cols grp strategy "- 1"] by (cases "grp = []") auto

lemma golden_loop_mset:
  "golden_loop cols strategy groups (G, D) = Inr (G', D') \<Longrightarrow>
   mset (concat G') + mset (concat D') = mset (concat G) + mset (concat D) + mset (concat (map snd groups))"
proof (induction groups arbitrary: G D)
  case Nil
  then show ?case by simp
next
  case (Cons a groups)
  obtain gid grp where a: "a = (gid, grp)" by (cases a)
  from Cons.prems obtain i where i: "identify_golden_record cols grp strategy = Inr i"
    by (auto simp: a split: sum.splits)
  show ?case
  proof (cases "i = - 1")
    case True
    with i have "grp = []" using identify_golden_sentinel by blast
    moreover from Cons.prems i True have "golden_loop cols strategy groups (G, D) = Inr (G', D')"
      by (simp add: a)
    ultimately show ?thesis using Cons.IH by (simp add: a)
  next
    case False
    with Cons.prems i have "golden_loop cols strategy groups
                 (G @ [filter (\<lambda>r. int (r_index r) = i) grp],
                  D @ [filter (\<lambda>r. int (r_index r) \<noteq> i) grp]) = Inr (G', D')"
      by (simp add: a)
    from Cons.IH[OF this] show ?thesis
      using mset_filter_split[of "\<lambda>r. int (r_index r) = i" grp] by (simp add: a ac_simps)
  qed
qed

lemma groups_mset:
  "distinct ks \<Longrightarrow>
   mset (concat (map (\<lambda>g. filter (\<lambda>r. dup_group_id r = Some g) rows) ks))
     = mset (filter (\<lambda>r. \<exists>g \<in> set ks. dup_group_id r = Some g) rows)"
proof (induction ks)
  case Nil
  then show ?case by simp
next
  case (Cons k ks)
  have "mset (filter (\<lambda>r. dup_group_id r = Some k) rows)
        + mset (filter (\<lambda>r. \<exists>g \<in> set ks. dup_group_id r = Some g) rows)
      = mset (filter (\<lambda>r. \<exists>g \<in> set (k # ks). dup_group_id r = Some g) rows)"
    using Cons.prems by (induction rows) auto
  with Cons show ?case by simp
qed

lemma group_ids_props:
  "distinct (group_ids rows)"
  "set (group_ids rows) = {g. \<exists>r \<in> set rows. dup_group_id r = Some g}"
  by (auto simp: group_ids_def split: option.splits)

lemma groupby_mset:
  "mset (concat (map snd (groupby_gid rows))) = mset (filter (\<lambda>r. dup_group_id r \<noteq> None) rows)"
proof -
  have "mset (concat (map snd (groupby_gid rows)))
      = mset (filter (\<lambda>r. \<exists>g \<in> set (group_ids rows). dup_group_id r = Some g) rows)"
    unfolding groupby_gid_def using groups_mset[OF group_ids_props(1), of rows rows]
    by (simp add: comp_def)
  also have "\<dots> = mset (filter (\<lambda>r. dup_group_id r \<noteq> None) rows)"
    by (intro arg_cong[where f=mset] filter_cong) (auto simp: group_ids_props)
  finally show ?thesis .
qed

lemma golden_loop_picks:
  assumes "golden_loop cols strategy groups (G, D) = Inr (G', D')"
    and "\<forall>(g, grp) \<in> set groups. grp \<noteq> [] \<and> distinct (map r_index grp)
            \<and> (\<forall>r \<in> set grp. dup_group_id r = Some g)"
    and "distinct (map fst groups)"
  shows "length (filter (\<lambda>r. dup_group_id r = Some g) (concat G'))
       = length (filter (\<lambda>r. dup_group_id r = Some g) (concat G))
         + (if g \<in> fst ` set groups then 1 else 0)"
  using assms
proof (induction groups arbitrary: G D)
  case Nil
  then show ?case by simp
next
  case (Cons a groups)
  obtain gid grp where a: "a = (gid, grp)" by (cases a)
  from Cons.prems(2) a have grp: "grp \<noteq> []" "distinct (map r_index grp)"
    "\<forall>r \<in> set grp. dup_group_id r = Some gid" by auto
  from Cons.prems(1) obtain i where i: "identify_golden_record cols grp strategy = Inr i"
    by (auto simp: a split: sum.splits)
  from identify_golden_member[OF i grp(1)] obtain r where r: "r \<in> set grp" "i = int (r_index r)"
    by blast
  then have ne: "i \<noteq> - 1" by simp
  have pick: "filter (\<lambda>x. int (r_index x) = i) grp = [r]"
    using filter_label_single[OF grp(2) r(1)] r(2) by simp
  from Cons.prems(1) i ne have loop: "golden_loop cols strategy groups
                 (G @ [[r]], D @ [filter (\<lambda>r. int (r_index r) \<noteq> i) grp]) = Inr (G', D')"
    by (simp add: a pick)
  have rest: "\<forall>(g, grp) \<in> set groups. grp \<noteq> [] \<and> distinct (map r_index grp)
            \<and> (\<forall>r \<in> set grp. dup_group_id r = Some g)" "distinct (map fst groups)"
    and notin: "gid \<notin> fst ` set groups"
    using Cons.prems(2,3) a by auto
  from Cons.IH[OF loop rest]
  have "length (filter (\<lambda>r. dup_group_id r = Some g) (concat G'))
       = length (filter (\<lambda>r. dup_group_id r = Some g) (concat (G @ [[r]])))
         + (if g \<in> fst ` set groups then 1 else 0)" .
  moreover have "dup_group_id r = Some gid" using grp(3) r(1) by blast
  ultimately show ?case using notin by (auto simp: a)
qed

lemma groupby_gid_props:
  assumes "distinct (map r_index rows)"
  shows "\<forall>(g, grp) \<in> set (groupby_gid rows). grp \<noteq> [] \<and> distinct (map r_index grp)
            \<and> (\<forall>r \<in> set grp. dup_group_id r = Some g)"
    and "distinct (map fst (groupby_gid rows))"
    and "fst ` set (groupby_gid rows) = {g. \<exists>r \<in> set rows. dup_group_id r = Some g}"
proof -
  show "distinct (map fst (groupby_gid rows))"
    by (simp add: groupby_gid_def comp_def group_ids_props)
  show "fst ` set (groupby_gid rows) = {g. \<exists>r \<in> set rows. dup_group_id r = Some g}"
    by (simp add: groupby_gid_def image_image group_ids_props)
  show "\<forall>(g, grp) \<in> set (groupby_gid rows). grp \<noteq> [] \<and> distinct (map r_index grp)
            \<and> (\<forall>r \<in> set grp. dup_group_id r = Some g)"
  proof (clarify, intro conjI)
    fix g grp assume m: "(g, grp) \<in> set (groupby_gid rows)"
    then have g: "g \<in> set (group_ids rows)" and grp: "grp = filter (\<lambda>r. dup_group_id r = Some g) rows"
      by (auto simp: groupby_gid_def)
    from g obtain r where "r \<in> set rows" "dup_group_id r = Some g"
      by (auto simp: group_ids_props)
    then show "grp \<noteq> []" unfolding grp by (auto simp: filter_empty_conv)
    show "distinct (map r_index grp)" unfolding grp using assms by (simp add: distinct_map_filter)
    show "\<forall>r \<in> set grp. dup_group_id r = Some g" unfolding grp by simp
  qed
qed

text \<open>
  What holds of the golden and the discard set whenever
  \<^verbatim>\<open>build_golden_records_df\<close> returns, on a frame with distinct row labels in
  which the duplicate rows are the rows with a group id.
\<close>

lemma build_golden_partition:
  assumes bg: "build_golden_records_df frame strategy = Inr (golden, discards)"
    and flag: "\<forall>r \<in> set (dup_rows frame). is_duplicate r \<longleftrightarrow> dup_group_id r \<noteq> None"
    and labels: "distinct (map r_index (dup_rows frame))"
  shows "mset (dup_rows golden) + mset (dup_rows discards) = mset (dup_rows frame)"
    and "set (dup_rows golden) \<inter> set (dup_rows discards) = {}"
    and "\<forall>r \<in> set (dup_rows frame). \<not> is_duplicate r \<longrightarrow> r \<in> set (dup_rows golden)"
    and "\<forall>r \<in> set (dup_rows frame). is_duplicate r \<longrightarrow>
           length (filter (\<lambda>x. dup_group_id x = dup_group_id r) (dup_rows golden)) = 1"
proof -
  let ?rows = "dup_rows frame"
  let ?non = "filter (\<lambda>r. \<not> is_duplicate r) ?rows"
  let ?dup = "filter is_duplicate ?rows"
  from bg obtain G D where loop: "golden_loop (dup_columns frame) strategy (groupby_gid ?dup) ([], []) = Inr (G, D)"
    and gold: "dup_rows golden = ?non @ concat G" and disc: "dup_rows discards = concat D"
    by (auto simp: build_golden_records_df_def Let_def split: sum.splits if_splits)
  have dupgid: "filter (\<lambda>r. dup_group_id r \<noteq> None) ?dup = ?dup"
    using flag by (intro filter_True) auto
  have "mset (concat G) + mset (concat D) = mset (concat (map snd (groupby_gid ?dup)))"
    using golden_loop_mset[OF loop] by simp
  also have "\<dots> = mset (filter (\<lambda>r. dup_group_id r \<noteq> None) ?dup)"
    by (rule groupby_mset)
  also have "\<dots> = mset ?dup"
    by (simp only: dupgid)
  finally have gd: "mset (concat G) + mset (concat D) = mset ?dup" .
  have sp: "mset ?non + mset ?dup = mset ?rows"
    using mset_filter_split[of "\<lambda>r. \<not> is_duplicate r" ?rows] by simp
  have "mset (dup_rows golden) + mset (dup_rows discards)
      = mset ?non + (mset (concat G) + mset (concat D))"
    unfolding gold disc by (simp only: mset_append add.assoc)
  also have "\<dots> = mset ?non + mset ?dup" by (simp only: gd)
  also have "\<dots> = mset ?rows" by (rule sp)
  finally show part: "mset (dup_rows golden) + mset (dup_rows discards) = mset ?rows" .
  have "distinct ?rows" using labels by (rule distinct_map[THEN iffD1, THEN conjunct1])
  moreover from part have "mset (dup_rows golden @ dup_rows discards) = mset ?rows" by simp
  ultimately have "distinct (dup_rows golden @ dup_rows discards)"
    by (metis mset_eq_imp_distinct_iff)
  then show "set (dup_rows golden) \<inter> set (dup_rows discards) = {}" by simp
  show "\<forall>r \<in> set ?rows. \<not> is_duplicate r \<longrightarrow> r \<in> set (dup_rows golden)"
    by (simp add: gold)
  have dl: "distinct (map r_index ?dup)" using labels by (simp add: distinct_map_filter)
  show "\<forall>r \<in> set ?rows. is_duplicate r \<longrightarrow>
           length (filter (\<lambda>x. dup_group_id x = dup_group_id r) (dup_rows golden)) = 1"
  proof (intro ballI impI)
    fix r assume r: "r \<in> set ?rows" "is_duplicate r"
    with flag obtain g where g: "dup_group_id r = Some g" by auto
    from r g have "g \<in> fst ` set (groupby_gid ?dup)"
      by (auto simp: groupby_gid_props(3)[OF dl])
    with golden_loop_picks[OF loop groupby_gid_props(1,2)[OF dl], of g]
    have "length (filter (\<lambda>r. dup_group_id r = Some g) (concat G)) = 1" by simp
    moreover have "filter (\<lambda>x. dup_group_id x = Some g) ?non = []"
      using flag by (auto simp: filter_empty_conv)
    ultimately show "length (filter (\<lambda>x. dup_group_id x = dup_group_id r) (dup_rows golden)) = 1"
      by (simp add: gold g)
  qed
qed

text \<open>The frames that \<^verbatim>\<open>detect_duplicates\<close> returns are such frames.\<close>

lemma golden_partition_of_run:
  assumes det: "detect_duplicates ts_str ratio df match_columns fuzzy threshold = Inr (frame, groups)"
    and bg: "build_golden_records_df frame strategy = Inr (golden, discards)"
  shows "mset (dup_rows golden) + mset (dup_rows discards) = mset (dup_rows frame)"
    and "set (dup_rows golden) \<inter> set (dup_rows discards) = {}"
    and "\<forall>r \<in> set (dup_rows frame). \<not> is_duplicate r \<longrightarrow> r \<in> set (dup_rows golden)"
    and "\<forall>r \<in> set (dup_rows frame). is_duplicate r \<longrightarrow>
           length (filter (\<lambda>x. dup_group_id x = dup_group_id r) (dup_rows golden)) = 1"
proof -
  have len: "length (dup_rows frame) = length (df_rows df)"
  proof (cases "df_rows df")
    case Nil
    from detect_duplicates_Inr[OF det] obtain ks where
      ks: "those (map (\<lambda>c. index_of c (col_names df)) match_columns) = Some ks" by blast
    from detect_rows[OF det ks] Nil show ?thesis by auto
  next
    case (Cons a list)
    then have "0 < length (df_rows df)" by simp
    from detect_frame_rows(1)[OF det this] show ?thesis .
  qed
  have idx: "r_index (dup_rows frame ! p) = p" if "p < length (dup_rows frame)" for p
    using detect_frame_rows(2)[OF det] that len by simp
  have "map r_index (dup_rows frame) = [0..<length (dup_rows frame)]"
    by (intro nth_equalityI) (simp_all add: idx)
  then have labels: "distinct (map r_index (dup_rows frame))" by simp
  have flag: "\<forall>r \<in> set (dup_rows frame). is_duplicate r \<longleftrightarrow> dup_group_id r \<noteq> None"
  proof
    fix r assume "r \<in> set (dup_rows frame)"
    then obtain p where "p < length (dup_rows frame)" "dup_rows frame ! p = r"
      by (auto simp: in_set_conv_nth)
    with detect_frame_rows(3)[OF det, of p] len
    show "is_duplicate r \<longleftrightarrow> dup_group_id r \<noteq> None" by simp
  qed
  note P = build_golden_partition[OF bg flag labels]
  show "mset (dup_rows golden) + mset (dup_rows discards) = mset (dup_rows frame)" by (rule P(1))
  show "set (dup_rows golden) \<inter> set (dup_rows discards) = {}" by (rule P(2))
  show "\<forall>r \<in> set (dup_rows frame). \<not> is_duplicate r \<longrightarrow> r \<in> set (dup_rows golden)" by (rule P(3))
  show "\<forall>r \<in> set (dup_rows frame). is_duplicate r \<longrightarrow>
           length (filter (\<lambda>x. dup_group_id x = dup_group_id r) (dup_rows golden)) = 1" by (rule P(4))
qed

text \<open>
  C3 at a failing input. In the frame with the names a, a, b and a column
  \<^verbatim>\<open>source\<close> that is null in both rows of a, the two rows of a form a duplicate
  group. Under the strategy Source Priority the group has no source value to
  take the minimum of, and \<^verbatim>\<open>build_golden_records_df\<close> raises instead of
  returning the two sets; under Most Complete it returns row 2 and row 0 as
  golden and row 1 as discard.
\<close>

theorem golden_records_source_priority_raises:
  "row_labels (golden_of_run (detect_duplicates no_ts no_ratio example_sources [''name''] False (85 / 100))
                 ''Source Priority'')
     = Inl (PyException ''idxmin of a column without values'')
   \<and> row_labels (golden_of_run (detect_duplicates no_ts no_ratio example_sources [''name''] False (85 / 100))
                 ''Most Complete'')
     = Inr ([2, 0], [1])"
  by code_simp

end
